theory Spec2Isabelle
  imports Main
begin

section \<open>The multi-core job scheduler of libscheduler.c\<close>

text \<open>
  A shallow embedding of \<^verbatim>\<open>src/libscheduler/libscheduler.c\<close>. The global variables of
  the C file become one record that every handler takes and returns. C's \<^verbatim>\<open>int\<close> is
  modelled by \<open>int\<close>: signed overflow is undefined in C, and the development covers the
  runs in which no \<^verbatim>\<open>int\<close> operation overflows. Every place where the C code would
  dereference a null pointer, index the core array out of range or read a local variable
  that was never assigned is a branch returning an error.
\<close>

subsection \<open>Data\<close>

text \<open>
  The enumeration \<^verbatim>\<open>scheme_t\<close> is declared in libscheduler.h; its six values are the
  ones the \<^verbatim>\<open>switch\<close> of \<^verbatim>\<open>scheduler_start_up\<close> names.
\<close>

datatype scheme_t = FCFS | SJF | PSJF | PRI | PPRI | RR

text \<open>
  \<^verbatim>\<open>struct _job_t\<close>. The field \<^verbatim>\<open>id\<close> is called \<open>job_id\<close> here. The pointer
  \<^verbatim>\<open>next\<close> is represented by the chain \<open>job_ptr\<close> of the scheduler state.
\<close>

record job_t =
  job_id :: int
  arr_time :: int
  duration :: int
  priority :: int
  remaining_time :: int
  wait_time :: int
  start_wait :: int
  response_time :: int
  turnover_time :: int
  turn :: int
  core_id :: int

text \<open>
  Jobs live in a store, addressed by natural numbers; the queue and the job list both hold
  addresses, so that a job changed through the queue is changed in the job list too.
\<close>

type_synonym store = "nat \<Rightarrow> job_t"

record priqueue_t =
  comparer :: "job_t \<Rightarrow> job_t \<Rightarrow> int"
  elems :: "nat list"

text \<open>
  The globals of the C file. \<open>job_ptr\<close> is the list of the addresses reached from the
  C pointer \<^verbatim>\<open>job_ptr\<close> by following \<^verbatim>\<open>next\<close> (empty for \<^verbatim>\<open>NULL\<close>); \<open>nalloc\<close> counts
  the cells \<^verbatim>\<open>malloc\<close> has handed out, and is the address of the next one.
\<close>

record sched =
  numOfJobs :: int
  totalJobs :: int
  numOfCores :: int
  job_ptr :: "nat list"
  core_arr :: "int list"
  head :: priqueue_t
  sch :: scheme_t
  heap :: store
  nalloc :: nat

datatype error = NullDeref | OutOfBounds | Uninitialised

subsection \<open>The comparison functions\<close>

definition compare1 :: "job_t \<Rightarrow> job_t \<Rightarrow> int" where
  "compare1 a b = job_id a - job_id b"

definition compare2 :: "job_t \<Rightarrow> job_t \<Rightarrow> int" where
  "compare2 a b =
     (if remaining_time a < remaining_time b then - 1
      else if remaining_time a > remaining_time b then 1
      else job_id a - job_id b)"

definition compare3 :: "job_t \<Rightarrow> job_t \<Rightarrow> int" where
  "compare3 a b =
     (if priority a < priority b then - 1
      else if priority a > priority b then 1
      else job_id a - job_id b)"

definition compare4 :: "job_t \<Rightarrow> job_t \<Rightarrow> int" where
  "compare4 a b = turn a - turn b"

subsection \<open>The priority queue\<close>

text \<open>
  Modelled from the spec: libpriqueue.c is not among the sources. The queue is the
  ordered collection of section 4.2 of the specification: \<open>priqueue_offer\<close> inserts
  by the comparison function and returns the rank, \<open>priqueue_at\<close> reads a rank,
  \<open>priqueue_remove_at\<close> removes one, \<open>priqueue_size\<close> counts, \<open>priqueue_peek\<close> is the
  first element or nothing. The comparison function is applied at every insertion, to the
  jobs as the store holds them at that moment: the new element goes before the first
  element it is strictly smaller than, and to the end when there is none. In the loops of
  the handlers the queue is read as the list \<open>elems\<close>: \<^verbatim>\<open>priqueue_at(head, i)\<close> is
  \<open>elems ! i\<close>, \<^verbatim>\<open>priqueue_size(head)\<close> is its length, \<^verbatim>\<open>priqueue_peek(head)\<close> is
  \<^verbatim>\<open>NULL\<close> for the empty list, and removing rank \<open>i\<close> is \<open>take i\<close> followed by
  \<open>drop (Suc i)\<close>.
\<close>

definition priqueue_init :: "(job_t \<Rightarrow> job_t \<Rightarrow> int) \<Rightarrow> priqueue_t" where
  "priqueue_init cmp = \<lparr>comparer = cmp, elems = []\<rparr>"

definition priqueue_size :: "priqueue_t \<Rightarrow> int" where
  "priqueue_size q = int (length (elems q))"

definition priqueue_peek :: "priqueue_t \<Rightarrow> nat option" where
  "priqueue_peek q = (case elems q of [] \<Rightarrow> None | a # _ \<Rightarrow> Some a)"

definition priqueue_at :: "priqueue_t \<Rightarrow> nat \<Rightarrow> nat option" where
  "priqueue_at q i = (if i < length (elems q) then Some (elems q ! i) else None)"

definition priqueue_remove_at :: "priqueue_t \<Rightarrow> nat \<Rightarrow> priqueue_t" where
  "priqueue_remove_at q i = q\<lparr>elems := take i (elems q) @ drop (Suc i) (elems q)\<rparr>"

definition not_before :: "priqueue_t \<Rightarrow> store \<Rightarrow> nat \<Rightarrow> nat \<Rightarrow> bool" where
  "not_before q h a e = (\<not> comparer q (h a) (h e) < 0)"

definition priqueue_offer :: "store \<Rightarrow> priqueue_t \<Rightarrow> nat \<Rightarrow> nat \<times> priqueue_t" where
  "priqueue_offer h q a =
     (length (takeWhile (not_before q h a) (elems q)),
      q\<lparr>elems := takeWhile (not_before q h a) (elems q) @ a # dropWhile (not_before q h a) (elems q)\<rparr>)"

subsection \<open>scheduler_start_up\<close>

text \<open>The \<^verbatim>\<open>switch\<close> of lines 103 to 122.\<close>

fun comparer_of :: "scheme_t \<Rightarrow> job_t \<Rightarrow> job_t \<Rightarrow> int" where
  "comparer_of FCFS = compare1"
| "comparer_of SJF = compare2"
| "comparer_of PSJF = compare2"
| "comparer_of PRI = compare3"
| "comparer_of PPRI = compare3"
| "comparer_of RR = compare4"

definition blank_job :: job_t where
  "blank_job = \<lparr>job_id = 0, arr_time = 0, duration = 0, priority = 0, remaining_time = 0,
     wait_time = 0, start_wait = 0, response_time = 0, turnover_time = 0, turn = 0,
     core_id = 0\<rparr>"

text \<open>
  No cell of the store is allocated at start; the content of an unallocated cell is never
  read.
\<close>

definition scheduler_start_up :: "int \<Rightarrow> scheme_t \<Rightarrow> sched" where
  "scheduler_start_up cores scheme =
     \<lparr>numOfJobs = 0, totalJobs = 0, numOfCores = cores, job_ptr = [],
      core_arr = replicate (nat cores) 0,
      head = priqueue_init (comparer_of scheme),
      sch = scheme, heap = (\<lambda>_. blank_job), nalloc = 0\<rparr>"

subsection \<open>scheduler_new_job\<close>

text \<open>
  Lines 157 to 171: the new cell is linked to the job list. For job number 0 it becomes
  the head; for job number 1 it becomes the successor of the head; otherwise the list is
  walked \<^verbatim>\<open>totalJobs - 2\<close> cells from the head and the new cell becomes the successor of
  the cell reached. Walking past the end of the list dereferences \<^verbatim>\<open>NULL\<close>.
\<close>

definition link_job :: "int \<Rightarrow> int \<Rightarrow> nat list \<Rightarrow> nat \<Rightarrow> error + nat list" where
  "link_job job_number njobs chain tmp1 =
     (if job_number = 0 then Inr [tmp1]
      else if job_number = 1 then
        (case chain of [] \<Rightarrow> Inl NullDeref | p # _ \<Rightarrow> Inr [p, tmp1])
      else
        (let k = nat (njobs - 2) in
         if k < length chain then Inr (take (Suc k) chain @ [tmp1]) else Inl NullDeref))"

text \<open>Lines 174 to 188.\<close>

definition new_job_t :: "int \<Rightarrow> int \<Rightarrow> int \<Rightarrow> int \<Rightarrow> job_t" where
  "new_job_t job_number time running_time prio =
     \<lparr>job_id = job_number, arr_time = time, duration = running_time, priority = prio,
      remaining_time = running_time, wait_time = - 1, start_wait = - 1,
      response_time = - 1, turnover_time = - 1, turn = - 1, core_id = - 1\<rparr>"

text \<open>Lines 194 to 199: the remaining time of every job of the queue that is on a core.\<close>

definition recompute :: "int \<Rightarrow> job_t \<Rightarrow> job_t" where
  "recompute time j = j\<lparr>remaining_time := duration j - (time - wait_time j - arr_time j)\<rparr>"

fun update_active :: "int \<Rightarrow> nat list \<Rightarrow> store \<Rightarrow> store" where
  "update_active time [] h = h"
| "update_active time (a # es) h =
     update_active time es (if core_id (h a) \<noteq> - 1 then h(a := recompute time (h a)) else h)"

text \<open>Lines 203 to 217: the first core whose entry is 0.\<close>

definition find_idle :: "sched \<Rightarrow> nat option" where
  "find_idle s = find (\<lambda>i. core_arr s ! i = 0) [0..<nat (numOfCores s)]"

text \<open>Lines 226 to 243: the last job of the queue that is on a core, and what is done to it.\<close>

definition find_victim :: "store \<Rightarrow> nat list \<Rightarrow> nat option" where
  "find_victim h es = find (\<lambda>a. core_id (h a) \<noteq> - 1) (rev es)"

definition preempt :: "int \<Rightarrow> job_t \<Rightarrow> job_t" where
  "preempt time j =
     (let j1 = recompute time (j\<lparr>core_id := - 1, start_wait := time\<rparr>)
      in if remaining_time j1 = duration j1
         then j1\<lparr>response_time := - 1, start_wait := - 1, wait_time := - 1\<rparr>
         else j1)"

definition scheduler_new_job :: "int \<Rightarrow> int \<Rightarrow> int \<Rightarrow> int \<Rightarrow> sched \<Rightarrow> error + (int \<times> sched)" where
  "scheduler_new_job job_number time running_time prio s =
     (let tmp1 = nalloc s; njobs = totalJobs s + 1 in
      case link_job job_number njobs (job_ptr s) tmp1 of
        Inl e \<Rightarrow> Inl e
      | Inr chain \<Rightarrow>
          let h0 = (heap s)(tmp1 := new_job_t job_number time running_time prio);
              h1 = update_active time (elems (head s)) h0;
              s1 = s\<lparr>numOfJobs := numOfJobs s + 1, totalJobs := njobs, job_ptr := chain,
                     nalloc := Suc tmp1\<rparr>
          in case find_idle s of
               Some i \<Rightarrow>
                 let h2 = h1(tmp1 := (h1 tmp1)\<lparr>core_id := int i, wait_time := 0, response_time := 0,
                            turn := (if sch s = RR then priqueue_size (head s) else turn (h1 tmp1))\<rparr>);
                     (index, q) = priqueue_offer h2 (head s) tmp1
                 in Inr (int i, s1\<lparr>heap := h2, head := q, core_arr := (core_arr s)[i := 1]\<rparr>)
             | None \<Rightarrow>
                 if sch s = PSJF \<or> sch s = PPRI then
                   (let (index, q) = priqueue_offer h1 (head s) tmp1 in
                    if int index < numOfCores s then
                      (case find_victim h1 (elems q) of
                         Some v \<Rightarrow>
                           let c = core_id (h1 v) in
                           if 0 \<le> c \<and> c < int (length (core_arr s)) then
                             (let h2 = h1(v := preempt time (h1 v));
                                  h3 = h2(tmp1 := (h2 tmp1)\<lparr>core_id := c, wait_time := 0, response_time := 0\<rparr>)
                              in Inr (c, s1\<lparr>heap := h3, head := q, core_arr := (core_arr s)[nat c := 1]\<rparr>))
                           else Inl OutOfBounds
                       | None \<Rightarrow>
                           Inr (- 1, s1\<lparr>heap := h1(tmp1 := (h1 tmp1)\<lparr>core_id := - 1, wait_time := 0, response_time := 0\<rparr>),
                                       head := q\<rparr>))
                    else Inr (- 1, s1\<lparr>heap := h1, head := q\<rparr>))
                 else
                   (let h2 = h1(tmp1 := (h1 tmp1)\<lparr>turn := (if sch s = RR then priqueue_size (head s) else turn (h1 tmp1))\<rparr>);
                        (index, q) = priqueue_offer h2 (head s) tmp1
                    in Inr (- 1, s1\<lparr>heap := h2, head := q\<rparr>)))"

subsection \<open>Choosing the next job of a freed core\<close>

text \<open>
  Lines 309 to 332, again at 349 to 372 and at 425 to 448: the three copies differ only in
  the variable the core of the job is taken from (\<^verbatim>\<open>idle_core_id\<close>, which is assigned
  only when the finished job was found, or \<^verbatim>\<open>core_id\<close>). The \<^verbatim>\<open>while\<close> loop stops at
  the first job that is on no core, or at the last job of the queue.
\<close>

fun scan_inactive :: "store \<Rightarrow> nat \<Rightarrow> nat list \<Rightarrow> nat" where
  "scan_inactive h tmp [] = tmp"
| "scan_inactive h tmp (b # es) = (if core_id (h tmp) \<noteq> - 1 then scan_inactive h b es else tmp)"

definition admit :: "int \<Rightarrow> int \<Rightarrow> job_t \<Rightarrow> job_t" where
  "admit time c j =
     (let j1 = (if response_time j = - 1
                then j\<lparr>response_time := time - arr_time j, wait_time := time - arr_time j\<rparr>
                else j);
          j2 = (if start_wait j1 \<noteq> - 1
                then j1\<lparr>wait_time := wait_time j1 + (time - start_wait j1), start_wait := - 1\<rparr>
                else j1)
      in j2\<lparr>core_id := c\<rparr>)"

definition dispatch_next :: "int \<Rightarrow> int option \<Rightarrow> int \<Rightarrow> sched \<Rightarrow> error + (int \<times> sched)" where
  "dispatch_next core idle_core_id time s =
     (case elems (head s) of
        [] \<Rightarrow> Inr (- 1, s)
      | first # es \<Rightarrow>
          let tmp = scan_inactive (heap s) first es in
          if core_id (heap s tmp) \<noteq> - 1 then Inr (- 1, s)
          else (case idle_core_id of
                  None \<Rightarrow> Inl Uninitialised
                | Some c \<Rightarrow>
                    if 0 \<le> core \<and> core < int (length (core_arr s)) then
                      Inr (job_id (heap s tmp),
                           s\<lparr>heap := (heap s)(tmp := admit time c (heap s tmp)),
                             core_arr := (core_arr s)[nat core := 1]\<rparr>)
                    else Inl OutOfBounds))"

subsection \<open>scheduler_job_finished\<close>

text \<open>
  Lines 291 to 301 and 336 to 345. The loop has no \<^verbatim>\<open>break\<close>: after a removal the index
  still advances, so the element that moved into the freed position is not examined.
\<close>

definition retire :: "bool \<Rightarrow> int \<Rightarrow> job_t \<Rightarrow> job_t" where
  "retire rr time j =
     j\<lparr>turnover_time := time - arr_time j,
       remaining_time := duration j - (time - wait_time j - arr_time j),
       core_id := - 1,
       turn := (if rr then - 1 else turn j)\<rparr>"

function finish_loop :: "bool \<Rightarrow> int \<Rightarrow> int \<Rightarrow> nat \<Rightarrow> store \<times> nat list \<times> bool \<Rightarrow> store \<times> nat list \<times> bool" where
  "finish_loop rr time job_number i (h, es, found) =
     (if i < length es then
        (if job_id (h (es ! i)) = job_number
         then finish_loop rr time job_number (Suc i)
                (h(es ! i := retire rr time (h (es ! i))), take i es @ drop (Suc i) es, True)
         else finish_loop rr time job_number (Suc i) (h, es, found))
      else (h, es, found))"
  by pat_completeness auto
termination
  by (relation "measure (\<lambda>(rr, time, job_number, i, h, es, found). length es - i)") auto

text \<open>Lines 303 to 306 and 414 to 417.\<close>

fun renumber :: "nat \<Rightarrow> nat list \<Rightarrow> store \<Rightarrow> store" where
  "renumber i [] h = h"
| "renumber i (a # es) h = renumber (Suc i) es (h(a := (h a)\<lparr>turn := int i\<rparr>))"

definition scheduler_job_finished :: "int \<Rightarrow> int \<Rightarrow> int \<Rightarrow> sched \<Rightarrow> error + (int \<times> sched)" where
  "scheduler_job_finished core job_number time s =
     (if 0 \<le> core \<and> core < int (length (core_arr s)) then
        (case finish_loop (sch s = RR) time job_number 0 (heap s, elems (head s), False) of
           (h, es, found) \<Rightarrow>
             dispatch_next core (if found then Some core else None) time
               (s\<lparr>numOfJobs := numOfJobs s - 1,
                  core_arr := (core_arr s)[nat core := 0],
                  heap := (if sch s = RR then renumber 0 es h else h),
                  head := (head s)\<lparr>elems := es\<rparr>\<rparr>))
      else Inl OutOfBounds)"

subsection \<open>scheduler_quantum_expired\<close>

text \<open>
  Lines 400 to 411. The first job of the queue whose core is \<^verbatim>\<open>core_id\<close> leaves the
  queue; taking out the first occurrence of its address is taking out that position. When
  no job is on the core, \<^verbatim>\<open>curr\<close> is left pointing to the last job the loop has read,
  and is never assigned when the queue is empty.
\<close>

definition yield :: "int \<Rightarrow> job_t \<Rightarrow> job_t" where
  "yield time j = recompute time (j\<lparr>core_id := - 1, start_wait := time\<rparr>)"

definition scheduler_quantum_expired :: "int \<Rightarrow> int \<Rightarrow> sched \<Rightarrow> error + (int \<times> sched)" where
  "scheduler_quantum_expired core time s =
     (case find (\<lambda>a. core_id (heap s a) = core) (elems (head s)) of
        Some cur \<Rightarrow>
          if 0 \<le> core \<and> core < int (length (core_arr s)) then
            (let es = remove1 cur (elems (head s));
                 h1 = (heap s)(cur := yield time (heap s cur));
                 h2 = h1(cur := (h1 cur)\<lparr>turn := int (length es)\<rparr>);
                 h3 = renumber 0 es h2;
                 (index, q) = priqueue_offer h3 ((head s)\<lparr>elems := es\<rparr>) cur
             in dispatch_next core (Some core) time
                  (s\<lparr>core_arr := (core_arr s)[nat core := - 1], heap := h3, head := q\<rparr>))
          else Inl OutOfBounds
      | None \<Rightarrow>
          (case elems (head s) of
             [] \<Rightarrow> Inl Uninitialised
           | _ # _ \<Rightarrow>
               (let cur = last (elems (head s));
                    h3 = renumber 0 (elems (head s)) (heap s);
                    (index, q) = priqueue_offer h3 (head s) cur
                in dispatch_next core (Some core) time (s\<lparr>heap := h3, head := q\<rparr>))))"

subsection \<open>The statistics\<close>

text \<open>
  The three functions return a \<^verbatim>\<open>float\<close>, the quotient of two integers converted to
  \<^verbatim>\<open>float\<close>. Only the cases of that division are modelled: \<open>Quotient n d\<close> stands for
  the \<^verbatim>\<open>float\<close> nearest to \<open>n / d\<close> with \<open>d \<noteq> 0\<close>; a division by zero gives, in
  IEEE 754 arithmetic, an infinity or, for \<open>0 / 0\<close>, the value that is not a number.
\<close>

datatype c_float = Quotient int int | PlusInfinity | MinusInfinity | NaN

definition float_div :: "int \<Rightarrow> int \<Rightarrow> c_float" where
  "float_div n d =
     (if d = 0 then (if n = 0 then NaN else if 0 < n then PlusInfinity else MinusInfinity)
      else Quotient n d)"

text \<open>
  The loops of lines 470 to 474, 500 to 503 and 530 to 534 read the first \<^verbatim>\<open>totalJobs\<close>
  cells of the job list.
\<close>

definition total_of :: "(job_t \<Rightarrow> int) \<Rightarrow> sched \<Rightarrow> error + int" where
  "total_of field s =
     (if nat (totalJobs s) \<le> length (job_ptr s)
      then Inr (sum_list (map (\<lambda>a. field (heap s a)) (take (nat (totalJobs s)) (job_ptr s))))
      else Inl NullDeref)"

definition scheduler_average_waiting_time :: "sched \<Rightarrow> error + c_float" where
  "scheduler_average_waiting_time s =
     (case total_of wait_time s of
        Inl e \<Rightarrow> Inl e
      | Inr totalWaitTime \<Rightarrow> Inr (float_div totalWaitTime (totalJobs s)))"

definition scheduler_average_turnaround_time :: "sched \<Rightarrow> error + c_float" where
  "scheduler_average_turnaround_time s =
     (case total_of turnover_time s of
        Inl e \<Rightarrow> Inl e
      | Inr totalTurnTime \<Rightarrow> Inr (float_div totalTurnTime (totalJobs s)))"

definition scheduler_average_response_time :: "sched \<Rightarrow> error + c_float" where
  "scheduler_average_response_time s =
     (case total_of response_time s of
        Inl e \<Rightarrow> Inl e
      | Inr totalRespTime \<Rightarrow> Inr (float_div totalRespTime (totalJobs s)))"

subsection \<open>Runs\<close>

text \<open>
  The simulator calls the three handlers; a run is the list of its calls. The calls are
  made under these conditions: times do not decrease; the first job has number 0, job
  numbers increase and arrival times are unique; a job that finishes is in the queue and
  on the core named; a quantum expires only under round robin, on a core a job is on.
\<close>

datatype event =
  NewJob int int int int
| JobFinished int int int
| QuantumExpired int int

fun event_time :: "event \<Rightarrow> int" where
  "event_time (NewJob job_number time running_time prio) = time"
| "event_time (JobFinished core job_number time) = time"
| "event_time (QuantumExpired core time) = time"

fun step :: "sched \<Rightarrow> event \<Rightarrow> error + (int \<times> sched)" where
  "step s (NewJob job_number time running_time prio) =
     scheduler_new_job job_number time running_time prio s"
| "step s (JobFinished core job_number time) = scheduler_job_finished core job_number time s"
| "step s (QuantumExpired core time) = scheduler_quantum_expired core time s"

fun pre :: "int \<Rightarrow> sched \<Rightarrow> event \<Rightarrow> bool" where
  "pre t s (NewJob job_number time running_time prio) =
     (t \<le> time \<and> (nalloc s = 0 \<longrightarrow> job_number = 0) \<and>
      (\<forall>a \<in> set [0..<nalloc s]. job_id (heap s a) < job_number \<and> arr_time (heap s a) < time))"
| "pre t s (JobFinished core job_number time) =
     (t \<le> time \<and> 0 \<le> core \<and>
      (\<exists>a \<in> set (elems (head s)). job_id (heap s a) = job_number \<and> core_id (heap s a) = core))"
| "pre t s (QuantumExpired core time) =
     (t \<le> time \<and> 0 \<le> core \<and> sch s = RR \<and>
      (\<exists>a \<in> set (elems (head s)). core_id (heap s a) = core))"

fun exec :: "sched \<Rightarrow> event list \<Rightarrow> error + sched" where
  "exec s [] = Inr s"
| "exec s (e # es) = (case step s e of Inl x \<Rightarrow> Inl x | Inr (r, s') \<Rightarrow> exec s' es)"

text \<open>
  \<open>admissible t s evs\<close>: every call of the run is made under its conditions, \<open>t\<close> being
  the time of the call before the run. Nothing is asked of the calls after a failed one.
\<close>

fun admissible :: "int \<Rightarrow> sched \<Rightarrow> event list \<Rightarrow> bool" where
  "admissible t s [] = True"
| "admissible t s (e # es) =
     (pre t s e \<and>
      (case step s e of Inl x \<Rightarrow> True | Inr (r, s') \<Rightarrow> admissible (event_time e) s' es))"

fun now :: "int \<Rightarrow> event list \<Rightarrow> int" where
  "now t [] = t"
| "now t (e # es) = now (event_time e) es"

definition precedes :: "sched \<Rightarrow> job_t \<Rightarrow> job_t \<Rightarrow> bool" where
  "precedes s a b = (comparer (head s) a b < 0)"

text \<open>The job at an address after a run from start-up, when the run does not fail.\<close>

definition job_after :: "int \<Rightarrow> scheme_t \<Rightarrow> event list \<Rightarrow> nat \<Rightarrow> job_t option" where
  "job_after cores scheme evs a =
     (case exec (scheduler_start_up cores scheme) evs of
        Inl e \<Rightarrow> None
      | Inr s \<Rightarrow> if a < nalloc s then Some (heap s a) else None)"

subsection \<open>The invariant of admissible runs\<close>

text \<open>
  What holds after start-up and after every call made under its conditions: the job list
  holds every job, with increasing numbers from 0; the queue holds distinct addresses of
  jobs; the busy cores and the jobs of the queue that are on a core correspond one to one;
  under round robin the turns of the queue are its ranks; no time is ahead of the clock.
\<close>

definition registry_ok :: "sched \<Rightarrow> bool" where
  "registry_ok s \<longleftrightarrow>
     totalJobs s = int (nalloc s) \<and> job_ptr s = [0..<nalloc s] \<and>
     (\<forall>a<nalloc s. \<forall>b<nalloc s. a < b \<longrightarrow> job_id (heap s a) < job_id (heap s b)) \<and>
     (0 < nalloc s \<longrightarrow> job_id (heap s 0) = 0)"

definition queue_ok :: "sched \<Rightarrow> bool" where
  "queue_ok s \<longleftrightarrow>
     distinct (elems (head s)) \<and> (\<forall>a \<in> set (elems (head s)). a < nalloc s) \<and>
     comparer (head s) = comparer_of (sch s)"

definition assignment_ok :: "int list \<Rightarrow> nat set \<Rightarrow> (nat \<Rightarrow> int) \<Rightarrow> bool" where
  "assignment_ok arr E cid \<longleftrightarrow>
     (\<forall>c<length arr. arr ! c = 0 \<or> arr ! c = 1) \<and>
     (\<forall>a \<in> E. cid a \<noteq> - 1 \<longrightarrow> 0 \<le> cid a \<and> cid a < int (length arr) \<and> arr ! nat (cid a) = 1) \<and>
     (\<forall>c<length arr. arr ! c = 1 \<longrightarrow> (\<exists>a \<in> E. cid a = int c)) \<and>
     (\<forall>a \<in> E. \<forall>b \<in> E. cid a = cid b \<longrightarrow> cid a = - 1 \<or> a = b)"

definition cores_ok :: "sched \<Rightarrow> bool" where
  "cores_ok s \<longleftrightarrow>
     0 < numOfCores s \<and> length (core_arr s) = nat (numOfCores s) \<and>
     (\<forall>a<nalloc s. a \<notin> set (elems (head s)) \<longrightarrow> core_id (heap s a) = - 1) \<and>
     assignment_ok (core_arr s) (set (elems (head s))) (\<lambda>a. core_id (heap s a))"

definition rr_ok :: "sched \<Rightarrow> bool" where
  "rr_ok s \<longleftrightarrow>
     (sch s = RR \<longrightarrow>
        map (\<lambda>a. turn (heap s a)) (elems (head s)) = map int [0..<length (elems (head s))])"

definition times_ok :: "int \<Rightarrow> sched \<Rightarrow> bool" where
  "times_ok t s \<longleftrightarrow>
     (\<forall>a<nalloc s.
        arr_time (heap s a) \<le> t \<and>
        (start_wait (heap s a) \<noteq> - 1 \<longrightarrow> start_wait (heap s a) \<le> t) \<and>
        (response_time (heap s a) = - 1 \<or> 0 \<le> response_time (heap s a)) \<and>
        (response_time (heap s a) \<noteq> - 1 \<longrightarrow> 0 \<le> wait_time (heap s a)) \<and>
        (core_id (heap s a) \<noteq> - 1 \<longrightarrow> response_time (heap s a) \<noteq> - 1))"

definition sched_inv :: "int \<Rightarrow> scheme_t \<Rightarrow> int \<Rightarrow> sched \<Rightarrow> bool" where
  "sched_inv cores scheme t s \<longleftrightarrow>
     numOfCores s = cores \<and> sch s = scheme \<and>
     registry_ok s \<and> queue_ok s \<and> cores_ok s \<and> rr_ok s \<and> times_ok t s"

text \<open>
  The state in which \<open>scheduler_job_finished\<close> and \<open>scheduler_quantum_expired\<close>
  choose the next job, when the job \<open>a\<close> that finishes, or whose quantum expires, is the
  one on the core.
\<close>

definition after_finish :: "int \<Rightarrow> nat \<Rightarrow> int \<Rightarrow> sched \<Rightarrow> sched" where
  "after_finish core a time s =
     (let h = (heap s)(a := retire (sch s = RR) time (heap s a));
          es = remove1 a (elems (head s))
      in s\<lparr>numOfJobs := numOfJobs s - 1,
           core_arr := (core_arr s)[nat core := 0],
           heap := (if sch s = RR then renumber 0 es h else h),
           head := (head s)\<lparr>elems := es\<rparr>\<rparr>)"

definition after_expiry :: "int \<Rightarrow> nat \<Rightarrow> int \<Rightarrow> sched \<Rightarrow> sched" where
  "after_expiry core cur time s =
     (let es = remove1 cur (elems (head s));
          h1 = (heap s)(cur := yield time (heap s cur));
          h2 = h1(cur := (h1 cur)\<lparr>turn := int (length es)\<rparr>)
      in s\<lparr>core_arr := (core_arr s)[nat core := 0],
           heap := renumber 0 es h2,
           head := (head s)\<lparr>elems := es @ [cur]\<rparr>\<rparr>)"

text \<open>
  The cores marked busy in the core table, the jobs of the queue that are on a core, and
  the jobs of the whole job list that are on a core.
\<close>

definition busy_cores :: "sched \<Rightarrow> nat" where
  "busy_cores s = length (filter (\<lambda>x. x \<noteq> 0) (core_arr s))"

definition running_jobs :: "sched \<Rightarrow> nat" where
  "running_jobs s = length (filter (\<lambda>a. core_id (heap s a) \<noteq> - 1) (elems (head s)))"

definition assigned_jobs :: "sched \<Rightarrow> nat" where
  "assigned_jobs s = length (filter (\<lambda>a. core_id (heap s a) \<noteq> - 1) [0..<nalloc s])"

text \<open>
  \<open>reached cores scheme t0 evs s\<close>: the run \<open>evs\<close> from start-up is made under the
  conditions of the handlers and ends in the state \<open>s\<close>.
\<close>

definition reached :: "int \<Rightarrow> scheme_t \<Rightarrow> int \<Rightarrow> event list \<Rightarrow> sched \<Rightarrow> bool" where
  "reached cores scheme t0 evs s \<longleftrightarrow>
     0 < cores \<and> admissible t0 (scheduler_start_up cores scheme) evs \<and>
     exec (scheduler_start_up cores scheme) evs = Inr s"

text \<open>
  The response time of a job over a run. \<open>resp_of a s\<close> is the response time of the job
  at address \<open>a\<close>, where a job that is not in the job list yet counts as having the
  initial value -1 that \<open>scheduler_new_job\<close> gives it; \<open>on_core a s\<close> says that the job
  is on a core. \<open>assignments a s evs\<close> counts the calls of the run \<open>evs\<close> from \<open>s\<close> that
  leave the response time of the job at a new value other than -1, and
  \<open>first_dispatch a s evs\<close> is the time of the first call of the run after which the job
  is on a core.
\<close>

definition resp_of :: "nat \<Rightarrow> sched \<Rightarrow> int" where
  "resp_of a s = (if a < nalloc s then response_time (heap s a) else - 1)"

definition on_core :: "nat \<Rightarrow> sched \<Rightarrow> bool" where
  "on_core a s \<longleftrightarrow> a < nalloc s \<and> core_id (heap s a) \<noteq> - 1"

fun is_arrival :: "event \<Rightarrow> bool" where
  "is_arrival (NewJob job_number time running_time prio) = True"
| "is_arrival (JobFinished core job_number time) = False"
| "is_arrival (QuantumExpired core time) = False"

fun assignments :: "nat \<Rightarrow> sched \<Rightarrow> event list \<Rightarrow> nat" where
  "assignments a s [] = 0"
| "assignments a s (e # es) =
     (case step s e of
        Inl x \<Rightarrow> 0
      | Inr (r, s') \<Rightarrow>
          (if resp_of a s' \<noteq> - 1 \<and> resp_of a s' \<noteq> resp_of a s then 1 else 0) +
          assignments a s' es)"

fun first_dispatch :: "nat \<Rightarrow> sched \<Rightarrow> event list \<Rightarrow> int option" where
  "first_dispatch a s [] = None"
| "first_dispatch a s (e # es) =
     (case step s e of
        Inl x \<Rightarrow> None
      | Inr (r, s') \<Rightarrow> if on_core a s' then Some (event_time e) else first_dispatch a s' es)"

declare finish_loop.simps [simp del]

section \<open>Every call made under its conditions keeps the invariant\<close>

lemma sched_inv_start: "0 < cores \<Longrightarrow> sched_inv cores scheme t (scheduler_start_up cores scheme)"
  by (simp add: sched_inv_def registry_ok_def queue_ok_def cores_ok_def assignment_ok_def rr_ok_def
      times_ok_def scheduler_start_up_def priqueue_init_def)


lemma offer_elems:
  "set (elems (snd (priqueue_offer h q a))) = insert a (set (elems q))"
  "length (elems (snd (priqueue_offer h q a))) = Suc (length (elems q))"
  "comparer (snd (priqueue_offer h q a)) = comparer q"
  "fst (priqueue_offer h q a) \<le> length (elems q)"
proof -
  let ?P = "not_before q h a"
  have "set (takeWhile ?P (elems q)) \<union> set (dropWhile ?P (elems q)) = set (elems q)"
    by (metis set_append takeWhile_dropWhile_id)
  then show "set (elems (snd (priqueue_offer h q a))) = insert a (set (elems q))"
    by (auto simp: priqueue_offer_def)
  have "length (takeWhile ?P (elems q)) + length (dropWhile ?P (elems q)) = length (elems q)"
    by (metis length_append takeWhile_dropWhile_id)
  then show "length (elems (snd (priqueue_offer h q a))) = Suc (length (elems q))"
    by (simp add: priqueue_offer_def)
  show "comparer (snd (priqueue_offer h q a)) = comparer q"
    by (simp add: priqueue_offer_def)
  show "fst (priqueue_offer h q a) \<le> length (elems q)"
    by (simp add: priqueue_offer_def length_takeWhile_le)
qed

lemma offer_distinct:
  "distinct (elems q) \<Longrightarrow> a \<notin> set (elems q) \<Longrightarrow> distinct (elems (snd (priqueue_offer h q a)))"
proof -
  assume d: "distinct (elems q)" and n: "a \<notin> set (elems q)"
  let ?P = "not_before q h a"
  have "distinct (takeWhile ?P (elems q)) \<and> distinct (dropWhile ?P (elems q)) \<and>
        set (takeWhile ?P (elems q)) \<inter> set (dropWhile ?P (elems q)) = {}"
    using d by (metis distinct_append takeWhile_dropWhile_id)
  moreover have "set (takeWhile ?P (elems q)) \<subseteq> set (elems q)" by (auto dest: set_takeWhileD)
  moreover have "set (dropWhile ?P (elems q)) \<subseteq> set (elems q)" by (auto dest: set_dropWhileD)
  ultimately show ?thesis using n by (auto simp: priqueue_offer_def)
qed

lemma recompute_fields [simp]:
  "job_id (recompute t j) = job_id j" "arr_time (recompute t j) = arr_time j"
  "duration (recompute t j) = duration j" "priority (recompute t j) = priority j"
  "wait_time (recompute t j) = wait_time j" "start_wait (recompute t j) = start_wait j"
  "response_time (recompute t j) = response_time j" "turnover_time (recompute t j) = turnover_time j"
  "turn (recompute t j) = turn j" "core_id (recompute t j) = core_id j"
  "remaining_time (recompute t j) = duration j - (t - wait_time j - arr_time j)"
  by (simp_all add: recompute_def)

lemma recompute_idem [simp]: "recompute t (recompute t j) = recompute t j"
  by (simp add: recompute_def)

lemma update_active_apply:
  "update_active t es h a =
     (if a \<in> set es \<and> core_id (h a) \<noteq> - 1 then recompute t (h a) else h a)"
  by (induction es arbitrary: h) auto

lemma find_idle_Some:
  "find_idle s = Some i \<Longrightarrow> i < nat (numOfCores s) \<and> core_arr s ! i = 0"
  by (auto simp: find_idle_def find_Some_iff)

lemma find_idle_None:
  "find_idle s = None \<Longrightarrow> i < nat (numOfCores s) \<Longrightarrow> core_arr s ! i \<noteq> 0"
  by (auto simp: find_idle_def find_None_iff)

lemma find_victim_Some:
  "find_victim h es = Some v \<Longrightarrow> v \<in> set es \<and> core_id (h v) \<noteq> - 1"
  by (auto simp: find_victim_def find_Some_iff) (metis nth_mem set_rev length_rev)

lemma find_victim_None:
  "find_victim h es = None \<Longrightarrow> a \<in> set es \<Longrightarrow> core_id (h a) = - 1"
  by (auto simp: find_victim_def find_None_iff)


lemma assignment_cong:
  "assignment_ok arr E cid \<Longrightarrow> \<forall>a \<in> E. cid' a = cid a \<Longrightarrow> assignment_ok arr E cid'"
  by (simp add: assignment_ok_def)

lemma assignment_add:
  assumes "assignment_ok arr E cid" "cid x = - 1"
  shows "assignment_ok arr (insert x E) cid"
proof -
  have c1: "\<forall>c<length arr. arr ! c = 0 \<or> arr ! c = 1" using assms by (simp add: assignment_ok_def)
  have c2: "\<forall>a\<in>insert x E. cid a \<noteq> - 1 \<longrightarrow> 0 \<le> cid a \<and> cid a < int (length arr) \<and> arr ! nat (cid a) = 1"
    using assms by (simp add: assignment_ok_def)
  have c3: "\<forall>c<length arr. arr ! c = 1 \<longrightarrow> (\<exists>a\<in>insert x E. cid a = int c)"
  proof (intro allI impI)
    fix c assume "c < length arr" "arr ! c = 1"
    with assms obtain a where "a \<in> E" "cid a = int c" unfolding assignment_ok_def by blast
    then show "\<exists>a\<in>insert x E. cid a = int c" by blast
  qed
  have c4: "\<forall>a\<in>insert x E. \<forall>b\<in>insert x E. cid a = cid b \<longrightarrow> cid a = - 1 \<or> a = b"
  proof (intro ballI impI)
    fix a b assume ab: "a \<in> insert x E" "b \<in> insert x E" "cid a = cid b"
    show "cid a = - 1 \<or> a = b"
    proof (cases "a = x \<or> b = x")
      case True with ab assms(2) show ?thesis by auto
    next
      case False
      with ab have "a \<in> E" "b \<in> E" by auto
      with ab(3) assms(1) show ?thesis unfolding assignment_ok_def by blast
    qed
  qed
  show ?thesis unfolding assignment_ok_def using c1 c2 c3 c4 by blast
qed

lemma assignment_assign:
  assumes A: "assignment_ok arr E cid" and w: "w \<in> E" "cid w = - 1"
    and i: "i < length arr" "arr ! i = 0"
  shows "assignment_ok (arr[i := 1]) E (cid(w := int i))"
proof -
  have A1: "\<And>c. c < length arr \<Longrightarrow> arr ! c = 0 \<or> arr ! c = 1"
    and A2: "\<And>a. a \<in> E \<Longrightarrow> cid a \<noteq> - 1 \<Longrightarrow> 0 \<le> cid a \<and> cid a < int (length arr) \<and> arr ! nat (cid a) = 1"
    and A3: "\<And>c. c < length arr \<Longrightarrow> arr ! c = 1 \<Longrightarrow> \<exists>a\<in>E. cid a = int c"
    and A4: "\<And>a b. a \<in> E \<Longrightarrow> b \<in> E \<Longrightarrow> cid a = cid b \<Longrightarrow> cid a = - 1 \<or> a = b"
    using A unfolding assignment_ok_def by blast+
  have nb: "\<And>x. x \<in> E \<Longrightarrow> x \<noteq> w \<Longrightarrow> cid x \<noteq> int i"
  proof
    fix x assume x: "x \<in> E" "x \<noteq> w" "cid x = int i"
    then have "cid x \<noteq> - 1" by simp
    with x A2 have "arr ! nat (cid x) = 1" by blast
    with x i show False by simp
  qed
  have c1: "\<forall>c<length (arr[i := 1]). arr[i := 1] ! c = 0 \<or> arr[i := 1] ! c = 1"
  proof (intro allI impI)
    fix c assume "c < length (arr[i := 1])"
    then show "arr[i := 1] ! c = 0 \<or> arr[i := 1] ! c = 1"
      using A1 [of c] by (cases "c = i") auto
  qed
  have c2: "\<forall>a\<in>E. (cid(w := int i)) a \<noteq> - 1 \<longrightarrow>
      0 \<le> (cid(w := int i)) a \<and> (cid(w := int i)) a < int (length (arr[i := 1])) \<and>
      arr[i := 1] ! nat ((cid(w := int i)) a) = 1"
  proof (intro ballI impI)
    fix a assume a: "a \<in> E" "(cid(w := int i)) a \<noteq> - 1"
    show "0 \<le> (cid(w := int i)) a \<and> (cid(w := int i)) a < int (length (arr[i := 1])) \<and>
          arr[i := 1] ! nat ((cid(w := int i)) a) = 1"
    proof (cases "a = w")
      case True then show ?thesis using i by simp
    next
      case False
      with a A2 [of a] have *: "0 \<le> cid a" "cid a < int (length arr)" "arr ! nat (cid a) = 1"
        by auto
      then have "nat (cid a) \<noteq> i" using i by auto
      with * False show ?thesis by simp
    qed
  qed
  have c3: "\<forall>c<length (arr[i := 1]). arr[i := 1] ! c = 1 \<longrightarrow> (\<exists>a\<in>E. (cid(w := int i)) a = int c)"
  proof (intro allI impI)
    fix c assume c: "c < length (arr[i := 1])" "arr[i := 1] ! c = 1"
    show "\<exists>a\<in>E. (cid(w := int i)) a = int c"
    proof (cases "c = i")
      case True then show ?thesis using w by auto
    next
      case False
      with c A3 [of c] obtain a where a: "a \<in> E" "cid a = int c" by auto
      then have "a \<noteq> w" using w by auto
      with a show ?thesis by auto
    qed
  qed
  have c4: "\<forall>a\<in>E. \<forall>b\<in>E. (cid(w := int i)) a = (cid(w := int i)) b \<longrightarrow>
      (cid(w := int i)) a = - 1 \<or> a = b"
  proof (intro ballI impI)
    fix a b assume ab: "a \<in> E" "b \<in> E" "(cid(w := int i)) a = (cid(w := int i)) b"
    show "(cid(w := int i)) a = - 1 \<or> a = b"
    proof (cases "a = w")
      case True
      show ?thesis
      proof (cases "b = w")
        case True with \<open>a = w\<close> show ?thesis by simp
      next
        case False with True ab nb [of b] show ?thesis by auto
      qed
    next
      case False
      show ?thesis
      proof (cases "b = w")
        case True with False ab nb [of a] show ?thesis by auto
      next
        case bf: False with False ab A4 [of a b] show ?thesis by auto
      qed
    qed
  qed
  show ?thesis unfolding assignment_ok_def using c1 c2 c3 c4 by blast
qed

lemma assignment_release:
  assumes A: "assignment_ok arr E cid" and v: "v \<in> E" "cid v \<noteq> - 1"
  shows "assignment_ok (arr[nat (cid v) := 0]) E (cid(v := - 1))"
proof -
  have A1: "\<And>c. c < length arr \<Longrightarrow> arr ! c = 0 \<or> arr ! c = 1"
    and A2: "\<And>a. a \<in> E \<Longrightarrow> cid a \<noteq> - 1 \<Longrightarrow> 0 \<le> cid a \<and> cid a < int (length arr) \<and> arr ! nat (cid a) = 1"
    and A3: "\<And>c. c < length arr \<Longrightarrow> arr ! c = 1 \<Longrightarrow> \<exists>a\<in>E. cid a = int c"
    and A4: "\<And>a b. a \<in> E \<Longrightarrow> b \<in> E \<Longrightarrow> cid a = cid b \<Longrightarrow> cid a = - 1 \<or> a = b"
    using A unfolding assignment_ok_def by blast+
  from A2 [OF v] have vr: "0 \<le> cid v" "cid v < int (length arr)" "arr ! nat (cid v) = 1"
    by auto
  have other: "\<And>a. a \<in> E \<Longrightarrow> a \<noteq> v \<Longrightarrow> cid a \<noteq> cid v"
    using A4 v by metis
  have c1: "\<forall>c<length (arr[nat (cid v) := 0]). arr[nat (cid v) := 0] ! c = 0 \<or> arr[nat (cid v) := 0] ! c = 1"
  proof (intro allI impI)
    fix c assume "c < length (arr[nat (cid v) := 0])"
    then show "arr[nat (cid v) := 0] ! c = 0 \<or> arr[nat (cid v) := 0] ! c = 1"
      using A1 [of c] by (cases "c = nat (cid v)") auto
  qed
  have c2: "\<forall>a\<in>E. (cid(v := - 1)) a \<noteq> - 1 \<longrightarrow>
      0 \<le> (cid(v := - 1)) a \<and> (cid(v := - 1)) a < int (length (arr[nat (cid v) := 0])) \<and>
      arr[nat (cid v) := 0] ! nat ((cid(v := - 1)) a) = 1"
  proof (intro ballI impI)
    fix a assume a: "a \<in> E" "(cid(v := - 1)) a \<noteq> - 1"
    then have av: "a \<noteq> v" by auto
    with a A2 [of a] have *: "0 \<le> cid a" "cid a < int (length arr)" "arr ! nat (cid a) = 1"
      by auto
    have "nat (cid a) \<noteq> nat (cid v)" using other [OF a(1) av] * vr by auto
    with * av show "0 \<le> (cid(v := - 1)) a \<and> (cid(v := - 1)) a < int (length (arr[nat (cid v) := 0])) \<and>
          arr[nat (cid v) := 0] ! nat ((cid(v := - 1)) a) = 1" by simp
  qed
  have c3: "\<forall>c<length (arr[nat (cid v) := 0]). arr[nat (cid v) := 0] ! c = 1 \<longrightarrow>
      (\<exists>a\<in>E. (cid(v := - 1)) a = int c)"
  proof (intro allI impI)
    fix c assume c: "c < length (arr[nat (cid v) := 0])" "arr[nat (cid v) := 0] ! c = 1"
    then have cn: "c \<noteq> nat (cid v)" by auto
    with c A3 [of c] obtain a where a: "a \<in> E" "cid a = int c" by auto
    then have "a \<noteq> v" using cn by auto
    with a show "\<exists>a\<in>E. (cid(v := - 1)) a = int c" by auto
  qed
  have c4: "\<forall>a\<in>E. \<forall>b\<in>E. (cid(v := - 1)) a = (cid(v := - 1)) b \<longrightarrow>
      (cid(v := - 1)) a = - 1 \<or> a = b"
  proof (intro ballI impI)
    fix a b assume ab: "a \<in> E" "b \<in> E" "(cid(v := - 1)) a = (cid(v := - 1)) b"
    show "(cid(v := - 1)) a = - 1 \<or> a = b"
    proof (cases "a = v \<or> b = v")
      case True with ab show ?thesis by (auto split: if_splits)
    next
      case False with ab A4 [of a b] show ?thesis by auto
    qed
  qed
  show ?thesis unfolding assignment_ok_def using c1 c2 c3 c4 by blast
qed

lemma assignment_remove:
  assumes A: "assignment_ok arr E cid" and v: "cid v = - 1"
  shows "assignment_ok arr (E - {v}) cid"
proof -
  have A1: "\<And>c. c < length arr \<Longrightarrow> arr ! c = 0 \<or> arr ! c = 1"
    and A2: "\<And>a. a \<in> E \<Longrightarrow> cid a \<noteq> - 1 \<Longrightarrow> 0 \<le> cid a \<and> cid a < int (length arr) \<and> arr ! nat (cid a) = 1"
    and A3: "\<And>c. c < length arr \<Longrightarrow> arr ! c = 1 \<Longrightarrow> \<exists>a\<in>E. cid a = int c"
    and A4: "\<And>a b. a \<in> E \<Longrightarrow> b \<in> E \<Longrightarrow> cid a = cid b \<Longrightarrow> cid a = - 1 \<or> a = b"
    using A unfolding assignment_ok_def by blast+
  have c3: "\<forall>c<length arr. arr ! c = 1 \<longrightarrow> (\<exists>a\<in>E - {v}. cid a = int c)"
  proof (intro allI impI)
    fix c assume c: "c < length arr" "arr ! c = 1"
    with A3 [of c] obtain a where a: "a \<in> E" "cid a = int c" by auto
    then have "a \<noteq> v" using v by auto
    with a show "\<exists>a\<in>E - {v}. cid a = int c" by auto
  qed
  have c2: "\<forall>a\<in>E - {v}. cid a \<noteq> - 1 \<longrightarrow> 0 \<le> cid a \<and> cid a < int (length arr) \<and> arr ! nat (cid a) = 1"
    using A2 by blast
  have c4: "\<forall>a\<in>E - {v}. \<forall>b\<in>E - {v}. cid a = cid b \<longrightarrow> cid a = - 1 \<or> a = b"
    using A4 by blast
  have c1: "\<forall>c<length arr. arr ! c = 0 \<or> arr ! c = 1" using A1 by blast
  show ?thesis unfolding assignment_ok_def using c1 c2 c3 c4 by blast
qed

lemma assignment_busy:
  assumes "assignment_ok arr E cid" "\<forall>c<length arr. arr ! c \<noteq> 0" "0 < length arr"
  shows "\<exists>a \<in> E. cid a \<noteq> - 1"
proof -
  have A1: "\<And>c. c < length arr \<Longrightarrow> arr ! c = 0 \<or> arr ! c = 1"
    and A3: "\<And>c. c < length arr \<Longrightarrow> arr ! c = 1 \<Longrightarrow> \<exists>a\<in>E. cid a = int c"
    using assms(1) unfolding assignment_ok_def by blast+
  have "arr ! 0 = 1" using A1 [of 0] assms(2,3) by auto
  with A3 [of 0] assms(3) obtain a where a: "a \<in> E" "cid a = int 0" by auto
  then have "cid a \<noteq> - 1" by simp
  with a show ?thesis by blast
qed

lemma link_ok:
  assumes "registry_ok s" "pre t s (NewJob jn time rt pr)"
  shows "link_job jn (totalJobs s + 1) (job_ptr s) (nalloc s) = Inr [0..<Suc (nalloc s)]"
proof -
  let ?n = "nalloc s"
  from assms have tj: "totalJobs s = int ?n" and jp: "job_ptr s = [0..<?n]"
    and z: "0 < ?n \<Longrightarrow> job_id (heap s 0) = 0"
    and inc: "\<And>a b. a < ?n \<Longrightarrow> b < ?n \<Longrightarrow> a < b \<Longrightarrow> job_id (heap s a) < job_id (heap s b)"
    by (auto simp: registry_ok_def)
  from assms(2) have p0: "?n = 0 \<Longrightarrow> jn = 0"
    and lt: "\<And>a. a < ?n \<Longrightarrow> job_id (heap s a) < jn" by auto
  show ?thesis
  proof (cases "jn = 0")
    case True
    have "?n = 0" using lt [of 0] z True by (cases "?n = 0") auto
    with True show ?thesis by (simp add: link_job_def)
  next
    case False
    then have pos: "0 < ?n" using p0 by auto
    show ?thesis
    proof (cases "jn = 1")
      case True
      have "?n = 1"
      proof (rule ccontr)
        assume "?n \<noteq> 1"
        with pos have "1 < ?n" by simp
        then have "job_id (heap s 0) < job_id (heap s 1)" using inc [of 0 1] by simp
        moreover have "job_id (heap s 1) < 1" using lt [of 1] True \<open>1 < ?n\<close> by simp
        ultimately show False using z pos by simp
      qed
      with True jp show ?thesis by (simp add: link_job_def)
    next
      case f1: False
      have "take ?n [0..<?n] @ [?n] = [0..<Suc ?n]" by simp
      then show ?thesis using False f1 pos tj jp
        by (simp add: link_job_def Let_def nat_diff_distrib)
    qed
  qed
qed

lemma offer_rr:
  assumes "comparer q = compare4" "\<forall>e \<in> set (elems q). turn (h e) \<le> turn (h a)"
  shows "priqueue_offer h q a = (length (elems q), q\<lparr>elems := elems q @ [a]\<rparr>)"
proof -
  have "\<forall>e \<in> set (elems q). not_before q h a e"
    using assms by (auto simp: not_before_def compare4_def)
  then have tw: "takeWhile (not_before q h a) (elems q) = elems q"
    and dw: "dropWhile (not_before q h a) (elems q) = []"
    by (metis takeWhile_eq_all_conv, metis dropWhile_eq_Nil_conv)
  show ?thesis unfolding priqueue_offer_def tw dw by simp
qed

lemma rr_turn_bound:
  assumes "map (\<lambda>a. turn (h a)) es = map int [0..<length es]" "e \<in> set es"
  shows "turn (h e) < int (length es)"
proof -
  from assms(2) obtain k where k: "k < length es" "es ! k = e" by (auto simp: in_set_conv_nth)
  have "map (\<lambda>a. turn (h a)) es ! k = map int [0..<length es] ! k" using assms(1) by simp
  with k show ?thesis by simp
qed

lemma update_active_fields [simp]:
  "job_id (update_active t es h a) = job_id (h a)"
  "arr_time (update_active t es h a) = arr_time (h a)"
  "duration (update_active t es h a) = duration (h a)"
  "priority (update_active t es h a) = priority (h a)"
  "wait_time (update_active t es h a) = wait_time (h a)"
  "start_wait (update_active t es h a) = start_wait (h a)"
  "response_time (update_active t es h a) = response_time (h a)"
  "turnover_time (update_active t es h a) = turnover_time (h a)"
  "turn (update_active t es h a) = turn (h a)"
  "core_id (update_active t es h a) = core_id (h a)"
  by (simp_all add: update_active_apply)

lemma new_job_fields [simp]:
  "job_id (new_job_t jn time rt pr) = jn" "arr_time (new_job_t jn time rt pr) = time"
  "duration (new_job_t jn time rt pr) = rt" "priority (new_job_t jn time rt pr) = pr"
  "remaining_time (new_job_t jn time rt pr) = rt" "wait_time (new_job_t jn time rt pr) = - 1"
  "start_wait (new_job_t jn time rt pr) = - 1" "response_time (new_job_t jn time rt pr) = - 1"
  "turnover_time (new_job_t jn time rt pr) = - 1" "turn (new_job_t jn time rt pr) = - 1"
  "core_id (new_job_t jn time rt pr) = - 1"
  by (simp_all add: new_job_t_def)

lemma preempt_fields [simp]:
  "job_id (preempt t j) = job_id j" "arr_time (preempt t j) = arr_time j"
  "duration (preempt t j) = duration j" "priority (preempt t j) = priority j"
  "turnover_time (preempt t j) = turnover_time j" "turn (preempt t j) = turn j"
  "core_id (preempt t j) = - 1"
  "remaining_time (preempt t j) = duration j - (t - wait_time j - arr_time j)"
  "start_wait (preempt t j) = (if t - wait_time j - arr_time j = 0 then - 1 else t)"
  "response_time (preempt t j) = (if t - wait_time j - arr_time j = 0 then - 1 else response_time j)"
  "wait_time (preempt t j) = (if t - wait_time j - arr_time j = 0 then - 1 else wait_time j)"
  by (simp_all add: preempt_def Let_def)

lemma new_job_inv:
  assumes I: "sched_inv cores scheme t s" and P: "pre t s (NewJob jn time rt pr)"
  shows "\<exists>r s'. scheduler_new_job jn time rt pr s = Inr (r, s') \<and> sched_inv cores scheme time s'"
proof -
  define n where "n = nalloc s"
  define h1 where "h1 = update_active time (elems (head s)) ((heap s)(n := new_job_t jn time rt pr))"
  define s1 where "s1 = s\<lparr>numOfJobs := numOfJobs s + 1, totalJobs := totalJobs s + 1,
      job_ptr := [0..<Suc n], nalloc := Suc n\<rparr>"
  define cid where "cid = (\<lambda>a. core_id (heap s a))"
  from I have R: "registry_ok s" and Q: "queue_ok s" and C: "cores_ok s" and RRI: "rr_ok s"
    and T: "times_ok t s" and nc: "numOfCores s = cores" and sc: "sch s = scheme"
    by (auto simp: sched_inv_def)
  have lk: "link_job jn (totalJobs s + 1) (job_ptr s) n = Inr [0..<Suc n]"
    unfolding n_def using link_ok [OF R P] .
  have esn: "\<forall>a \<in> set (elems (head s)). a < n" using Q by (auto simp: queue_ok_def n_def)
  then have nn: "n \<notin> set (elems (head s))" by auto
  have qd: "distinct (elems (head s))" using Q by (simp add: queue_ok_def)
  have len: "length (core_arr s) = nat (numOfCores s)" "0 < numOfCores s"
    using C by (auto simp: cores_ok_def)
  have A0: "assignment_ok (core_arr s) (set (elems (head s))) cid"
    using C by (simp add: cores_ok_def cid_def)
  have "assignment_ok (core_arr s) (set (elems (head s))) (cid(n := - 1))"
    using A0 nn by (auto intro: assignment_cong)
  then have A2: "assignment_ok (core_arr s) (insert n (set (elems (head s)))) (cid(n := - 1))"
    by (rule assignment_add) simp
  have nq: "\<forall>a<n. a \<notin> set (elems (head s)) \<longrightarrow> cid a = - 1"
    using C by (simp add: cores_ok_def cid_def n_def)
  \<comment> \<open>what every outcome has to establish\<close>
  have fin: "sched_inv cores scheme time s'"
    if s': "s' = s1\<lparr>heap := h', head := q, core_arr := arr'\<rparr>"
      and q: "set (elems q) = insert n (set (elems (head s)))" "distinct (elems q)"
        "comparer q = comparer (head s)"
      and rr: "sch s = RR \<Longrightarrow> elems q = elems (head s) @ [n] \<and> turn (h' n) = int (length (elems (head s)))"
      and old: "\<And>a. a \<noteq> n \<Longrightarrow> job_id (h' a) = job_id (heap s a)"
        "\<And>a. a \<noteq> n \<Longrightarrow> arr_time (h' a) = arr_time (heap s a)"
        "\<And>a. a \<noteq> n \<Longrightarrow> turn (h' a) = turn (heap s a)"
      and new: "job_id (h' n) = jn" "arr_time (h' n) = time"
      and asg: "assignment_ok arr' (insert n (set (elems (head s)))) (\<lambda>a. core_id (h' a))"
        "length arr' = length (core_arr s)"
        "\<forall>a<n. a \<notin> set (elems (head s)) \<longrightarrow> core_id (h' a) = - 1"
      and tm: "\<forall>a<Suc n. (start_wait (h' a) \<noteq> - 1 \<longrightarrow> start_wait (h' a) \<le> time) \<and>
        (response_time (h' a) = - 1 \<or> 0 \<le> response_time (h' a)) \<and>
        (response_time (h' a) \<noteq> - 1 \<longrightarrow> 0 \<le> wait_time (h' a)) \<and>
        (core_id (h' a) \<noteq> - 1 \<longrightarrow> response_time (h' a) \<noteq> - 1)"
    for s' h' q arr'
  proof -
    have "registry_ok s'"
      using R P old new by (auto simp: registry_ok_def s' s1_def n_def less_Suc_eq)
    moreover have "queue_ok s'"
      using Q q esn by (auto simp: queue_ok_def s' s1_def)
    moreover have "cores_ok s'"
      using asg len q by (auto simp: cores_ok_def s' s1_def less_Suc_eq)
    moreover have "rr_ok s'"
    proof (cases "sch s = RR")
      case False then show ?thesis by (simp add: rr_ok_def s' s1_def)
    next
      case True
      with RRI have m: "map (\<lambda>a. turn (heap s a)) (elems (head s)) = map int [0..<length (elems (head s))]"
        by (simp add: rr_ok_def)
      have "\<And>x. x \<in> set (elems (head s)) \<Longrightarrow> x \<noteq> n" using nn by auto
      then have "map (\<lambda>a. turn (h' a)) (elems (head s)) = map (\<lambda>a. turn (heap s a)) (elems (head s))"
        by (intro map_cong [OF refl]) (simp add: old(3))
      then show ?thesis using m rr [OF True] by (simp add: rr_ok_def s' s1_def)
    qed
    moreover have "times_ok time s'"
      unfolding times_ok_def
    proof (intro allI impI)
      fix a assume "a < nalloc s'"
      then have a: "a < Suc n" by (simp add: s' s1_def)
      have "arr_time (heap s' a) \<le> time"
      proof (cases "a = n")
        case True then show ?thesis using new by (simp add: s' s1_def)
      next
        case False
        with a have "a < nalloc s" by (simp add: n_def)
        with P have "arr_time (heap s a) < time" by simp
        with False old(2) [of a] show ?thesis by (simp add: s' s1_def)
      qed
      with tm a show "arr_time (heap s' a) \<le> time \<and>
         (start_wait (heap s' a) \<noteq> - 1 \<longrightarrow> start_wait (heap s' a) \<le> time) \<and>
         (response_time (heap s' a) = - 1 \<or> 0 \<le> response_time (heap s' a)) \<and>
         (response_time (heap s' a) \<noteq> - 1 \<longrightarrow> 0 \<le> wait_time (heap s' a)) \<and>
         (core_id (heap s' a) \<noteq> - 1 \<longrightarrow> response_time (heap s' a) \<noteq> - 1)"
        by (simp add: s' s1_def)
    qed
    ultimately show ?thesis using nc sc by (simp add: sched_inv_def s' s1_def)
  qed
  have T': "\<And>a. a < n \<Longrightarrow> (start_wait (heap s a) \<noteq> - 1 \<longrightarrow> start_wait (heap s a) \<le> time) \<and>
        (response_time (heap s a) = - 1 \<or> 0 \<le> response_time (heap s a)) \<and>
        (response_time (heap s a) \<noteq> - 1 \<longrightarrow> 0 \<le> wait_time (heap s a)) \<and>
        (core_id (heap s a) \<noteq> - 1 \<longrightarrow> response_time (heap s a) \<noteq> - 1)"
    using T P by (fastforce simp: times_ok_def n_def)
  have rrq: "priqueue_offer h' (head s) n = (length (elems (head s)), (head s)\<lparr>elems := elems (head s) @ [n]\<rparr>)"
    if "sch s = RR" "turn (h' n) = int (length (elems (head s)))"
      "\<And>a. a \<noteq> n \<Longrightarrow> turn (h' a) = turn (heap s a)" for h'
  proof -
    from RRI that(1) have m: "map (\<lambda>a. turn (heap s a)) (elems (head s)) = map int [0..<length (elems (head s))]"
      by (simp add: rr_ok_def)
    have c4: "comparer (head s) = compare4" using Q that(1) by (simp add: queue_ok_def)
    have "\<forall>e \<in> set (elems (head s)). turn (h' e) \<le> turn (h' n)"
      using rr_turn_bound [OF m] that(2,3) nn by fastforce
    from offer_rr [OF c4 this] show ?thesis .
  qed
  show ?thesis
  proof (cases "find_idle s")
    case (Some i)
    define h2 where "h2 = h1(n := (h1 n)\<lparr>core_id := int i, wait_time := 0, response_time := 0,
             turn := (if sch s = RR then priqueue_size (head s) else turn (h1 n))\<rparr>)"
    define q where "q = snd (priqueue_offer h2 (head s) n)"
    define s' where "s' = s1\<lparr>heap := h2, head := q, core_arr := (core_arr s)[i := 1]\<rparr>"
    have res: "scheduler_new_job jn time rt pr s = Inr (int i, s')"
      using lk by (simp add: scheduler_new_job_def Some Let_def split_def s'_def s1_def q_def h2_def h1_def
          n_def [symmetric])
    have idle: "i < length (core_arr s)" "core_arr s ! i = 0" using find_idle_Some [OF Some] len by auto
    have "assignment_ok ((core_arr s)[i := 1]) (insert n (set (elems (head s)))) ((cid(n := - 1))(n := int i))"
      using A2 idle by (intro assignment_assign) auto
    then have asg: "assignment_ok ((core_arr s)[i := 1]) (insert n (set (elems (head s)))) (\<lambda>a. core_id (h2 a))"
      by (rule assignment_cong) (auto simp: h2_def h1_def cid_def)
    have "sched_inv cores scheme time s'"
    proof (rule fin [OF s'_def])
      show "set (elems q) = insert n (set (elems (head s)))" by (simp add: q_def offer_elems)
      show "distinct (elems q)" unfolding q_def using qd nn by (rule offer_distinct)
      show "comparer q = comparer (head s)" by (simp add: q_def offer_elems)
      show "elems q = elems (head s) @ [n] \<and> turn (h2 n) = int (length (elems (head s)))" if "sch s = RR"
      proof -
        have "turn (h2 n) = int (length (elems (head s)))" using that by (simp add: h2_def priqueue_size_def)
        moreover from rrq [of h2, OF that this] have "elems q = elems (head s) @ [n]"
          by (simp add: q_def h2_def h1_def)
        ultimately show ?thesis by simp
      qed
      show "\<And>a. a \<noteq> n \<Longrightarrow> job_id (h2 a) = job_id (heap s a)"
        "\<And>a. a \<noteq> n \<Longrightarrow> arr_time (h2 a) = arr_time (heap s a)"
        "\<And>a. a \<noteq> n \<Longrightarrow> turn (h2 a) = turn (heap s a)" by (simp_all add: h2_def h1_def)
      show "job_id (h2 n) = jn" "arr_time (h2 n) = time" by (simp_all add: h2_def h1_def)
      show "assignment_ok ((core_arr s)[i := 1]) (insert n (set (elems (head s)))) (\<lambda>a. core_id (h2 a))"
        by (rule asg)
      show "length ((core_arr s)[i := 1]) = length (core_arr s)" by simp
      show "\<forall>a<n. a \<notin> set (elems (head s)) \<longrightarrow> core_id (h2 a) = - 1"
        using nq by (simp add: h2_def h1_def cid_def)
      show "\<forall>a<Suc n. (start_wait (h2 a) \<noteq> - 1 \<longrightarrow> start_wait (h2 a) \<le> time) \<and>
        (response_time (h2 a) = - 1 \<or> 0 \<le> response_time (h2 a)) \<and>
        (response_time (h2 a) \<noteq> - 1 \<longrightarrow> 0 \<le> wait_time (h2 a)) \<and>
        (core_id (h2 a) \<noteq> - 1 \<longrightarrow> response_time (h2 a) \<noteq> - 1)"
        using T' by (simp add: h2_def h1_def less_Suc_eq)
    qed
    with res show ?thesis by blast
  next
    case None
    have busy: "\<forall>c<length (core_arr s). core_arr s ! c \<noteq> 0"
      using find_idle_None [OF None] len by auto
    show ?thesis
    proof (cases "sch s = PSJF \<or> sch s = PPRI")
      case True
      then have nrr: "sch s \<noteq> RR" by auto
      define q where "q = snd (priqueue_offer h1 (head s) n)"
      define index where "index = fst (priqueue_offer h1 (head s) n)"
      have qs: "set (elems q) = insert n (set (elems (head s)))" by (simp add: q_def offer_elems)
      have qdis: "distinct (elems q)" unfolding q_def using qd nn by (rule offer_distinct)
      have qc: "comparer q = comparer (head s)" by (simp add: q_def offer_elems)
      show ?thesis
      proof (cases "int index < numOfCores s")
        case False
        define s' where "s' = s1\<lparr>heap := h1, head := q, core_arr := core_arr s\<rparr>"
        have res: "scheduler_new_job jn time rt pr s = Inr (- 1, s')"
          using lk True False
          by (simp add: scheduler_new_job_def None Let_def split_def s'_def s1_def q_def index_def h1_def
              n_def [symmetric])
        have "sched_inv cores scheme time s'"
        proof (rule fin [OF s'_def qs qdis qc])
          show "elems q = elems (head s) @ [n] \<and> turn (h1 n) = int (length (elems (head s)))" if "sch s = RR"
            using that nrr by simp
          show "\<And>a. a \<noteq> n \<Longrightarrow> job_id (h1 a) = job_id (heap s a)"
            "\<And>a. a \<noteq> n \<Longrightarrow> arr_time (h1 a) = arr_time (heap s a)"
            "\<And>a. a \<noteq> n \<Longrightarrow> turn (h1 a) = turn (heap s a)" by (simp_all add: h1_def)
          show "job_id (h1 n) = jn" "arr_time (h1 n) = time" by (simp_all add: h1_def)
          show "assignment_ok (core_arr s) (insert n (set (elems (head s)))) (\<lambda>a. core_id (h1 a))"
            using A2 by (rule assignment_cong) (auto simp: h1_def cid_def)
          show "length (core_arr s) = length (core_arr s)" by simp
          show "\<forall>a<n. a \<notin> set (elems (head s)) \<longrightarrow> core_id (h1 a) = - 1"
            using nq by (simp add: h1_def cid_def)
          show "\<forall>a<Suc n. (start_wait (h1 a) \<noteq> - 1 \<longrightarrow> start_wait (h1 a) \<le> time) \<and>
            (response_time (h1 a) = - 1 \<or> 0 \<le> response_time (h1 a)) \<and>
            (response_time (h1 a) \<noteq> - 1 \<longrightarrow> 0 \<le> wait_time (h1 a)) \<and>
            (core_id (h1 a) \<noteq> - 1 \<longrightarrow> response_time (h1 a) \<noteq> - 1)"
            using T' by (simp add: h1_def less_Suc_eq)
        qed
        with res show ?thesis by blast
      next
        case lt: True
        from assignment_busy [OF A0 busy] len obtain b where b: "b \<in> set (elems (head s))" "cid b \<noteq> - 1"
          by auto
        have "find_victim h1 (elems q) \<noteq> None"
        proof
          assume "find_victim h1 (elems q) = None"
          moreover have "b \<noteq> n" using b nn by auto
          ultimately show False
            using find_victim_None [of h1 "elems q" b] b qs by (simp add: h1_def cid_def)
        qed
        then obtain v where v: "find_victim h1 (elems q) = Some v" by auto
        from find_victim_Some [OF v] have vq: "v \<in> set (elems q)" and vr: "core_id (h1 v) \<noteq> - 1" by auto
        have vn: "v \<noteq> n" using vr nn by (auto simp: h1_def update_active_apply)
        with vq qs have vE: "v \<in> set (elems (head s))" by auto
        have vc: "core_id (h1 v) = cid v" using vn by (simp add: h1_def cid_def)
        define c where "c = cid v"
        have cr: "0 \<le> c" "c < int (length (core_arr s))" "core_arr s ! nat c = 1"
          using A0 vE vr vc unfolding assignment_ok_def c_def by auto
        define h2 where "h2 = h1(v := preempt time (h1 v))"
        define h3 where "h3 = h2(n := (h2 n)\<lparr>core_id := c, wait_time := 0, response_time := 0\<rparr>)"
        define s' where "s' = s1\<lparr>heap := h3, head := q, core_arr := (core_arr s)[nat c := 1]\<rparr>"
        have res: "scheduler_new_job jn time rt pr s = Inr (c, s')"
          using lk True lt v cr vc
          by (simp add: scheduler_new_job_def None Let_def split_def s'_def s1_def q_def [symmetric]
              index_def [symmetric] h1_def [symmetric] h2_def h3_def n_def [symmetric] c_def)
        have "assignment_ok ((core_arr s)[nat ((cid(n := - 1)) v) := 0]) (insert n (set (elems (head s))))
                ((cid(n := - 1))(v := - 1))"
        proof (rule assignment_release [OF A2])
          show "v \<in> insert n (set (elems (head s)))" using vE by simp
          show "(cid(n := - 1)) v \<noteq> - 1" using vn vr vc by simp
        qed
        then have r1: "assignment_ok ((core_arr s)[nat c := 0]) (insert n (set (elems (head s))))
                ((cid(n := - 1))(v := - 1))"
          using vn by (simp add: c_def)
        have "assignment_ok (((core_arr s)[nat c := 0])[nat c := 1]) (insert n (set (elems (head s))))
                (((cid(n := - 1))(v := - 1))(n := int (nat c)))"
        proof (rule assignment_assign [OF r1])
          show "n \<in> insert n (set (elems (head s)))" by simp
          show "((cid(n := - 1))(v := - 1)) n = - 1" by simp
          show "nat c < length ((core_arr s)[nat c := 0])" using cr by simp
          show "(core_arr s)[nat c := 0] ! nat c = 0" using cr by simp
        qed
        then have "assignment_ok ((core_arr s)[nat c := 1]) (insert n (set (elems (head s))))
                (((cid(n := - 1))(v := - 1))(n := int (nat c)))"
          by simp
        then have asg: "assignment_ok ((core_arr s)[nat c := 1]) (insert n (set (elems (head s))))
             (\<lambda>a. core_id (h3 a))"
          by (rule assignment_cong) (use cr vn in \<open>auto simp: h3_def h2_def h1_def cid_def\<close>)
        have "sched_inv cores scheme time s'"
        proof (rule fin [OF s'_def qs qdis qc])
          show "elems q = elems (head s) @ [n] \<and> turn (h3 n) = int (length (elems (head s)))" if "sch s = RR"
            using that nrr by simp
          show "\<And>a. a \<noteq> n \<Longrightarrow> job_id (h3 a) = job_id (heap s a)"
            "\<And>a. a \<noteq> n \<Longrightarrow> arr_time (h3 a) = arr_time (heap s a)"
            "\<And>a. a \<noteq> n \<Longrightarrow> turn (h3 a) = turn (heap s a)" by (simp_all add: h3_def h2_def h1_def)
          show "job_id (h3 n) = jn" "arr_time (h3 n) = time" using vn by (simp_all add: h3_def h2_def h1_def)
          show "assignment_ok ((core_arr s)[nat c := 1]) (insert n (set (elems (head s)))) (\<lambda>a. core_id (h3 a))"
            by (rule asg)
          show "length ((core_arr s)[nat c := 1]) = length (core_arr s)" by simp
          show "\<forall>a<n. a \<notin> set (elems (head s)) \<longrightarrow> core_id (h3 a) = - 1"
            using nq by (simp add: h3_def h2_def h1_def cid_def)
          show "\<forall>a<Suc n. (start_wait (h3 a) \<noteq> - 1 \<longrightarrow> start_wait (h3 a) \<le> time) \<and>
            (response_time (h3 a) = - 1 \<or> 0 \<le> response_time (h3 a)) \<and>
            (response_time (h3 a) \<noteq> - 1 \<longrightarrow> 0 \<le> wait_time (h3 a)) \<and>
            (core_id (h3 a) \<noteq> - 1 \<longrightarrow> response_time (h3 a) \<noteq> - 1)"
            using T' by (simp add: h3_def h2_def h1_def less_Suc_eq)
        qed
        with res show ?thesis by blast
      qed
    next
      case False
      define h2 where "h2 = h1(n := (h1 n)\<lparr>turn := (if sch s = RR then priqueue_size (head s) else turn (h1 n))\<rparr>)"
      define q where "q = snd (priqueue_offer h2 (head s) n)"
      define s' where "s' = s1\<lparr>heap := h2, head := q, core_arr := core_arr s\<rparr>"
      have res: "scheduler_new_job jn time rt pr s = Inr (- 1, s')"
        using lk False
        by (simp add: scheduler_new_job_def None Let_def split_def s'_def s1_def q_def h2_def h1_def
            n_def [symmetric])
      have "sched_inv cores scheme time s'"
      proof (rule fin [OF s'_def])
        show "set (elems q) = insert n (set (elems (head s)))" by (simp add: q_def offer_elems)
        show "distinct (elems q)" unfolding q_def using qd nn by (rule offer_distinct)
        show "comparer q = comparer (head s)" by (simp add: q_def offer_elems)
        show "elems q = elems (head s) @ [n] \<and> turn (h2 n) = int (length (elems (head s)))" if "sch s = RR"
        proof -
          have "turn (h2 n) = int (length (elems (head s)))" using that by (simp add: h2_def priqueue_size_def)
          moreover from rrq [of h2, OF that this] have "elems q = elems (head s) @ [n]"
            by (simp add: q_def h2_def h1_def)
          ultimately show ?thesis by simp
        qed
        show "\<And>a. a \<noteq> n \<Longrightarrow> job_id (h2 a) = job_id (heap s a)"
          "\<And>a. a \<noteq> n \<Longrightarrow> arr_time (h2 a) = arr_time (heap s a)"
          "\<And>a. a \<noteq> n \<Longrightarrow> turn (h2 a) = turn (heap s a)" by (simp_all add: h2_def h1_def)
        show "job_id (h2 n) = jn" "arr_time (h2 n) = time" by (simp_all add: h2_def h1_def)
        show "assignment_ok (core_arr s) (insert n (set (elems (head s)))) (\<lambda>a. core_id (h2 a))"
          using A2 by (rule assignment_cong) (auto simp: h2_def h1_def cid_def)
        show "length (core_arr s) = length (core_arr s)" by simp
        show "\<forall>a<n. a \<notin> set (elems (head s)) \<longrightarrow> core_id (h2 a) = - 1"
          using nq by (simp add: h2_def h1_def cid_def)
        show "\<forall>a<Suc n. (start_wait (h2 a) \<noteq> - 1 \<longrightarrow> start_wait (h2 a) \<le> time) \<and>
          (response_time (h2 a) = - 1 \<or> 0 \<le> response_time (h2 a)) \<and>
          (response_time (h2 a) \<noteq> - 1 \<longrightarrow> 0 \<le> wait_time (h2 a)) \<and>
          (core_id (h2 a) \<noteq> - 1 \<longrightarrow> response_time (h2 a) \<noteq> - 1)"
          using T' by (simp add: h2_def h1_def less_Suc_eq)
      qed
      with res show ?thesis by blast
    qed
  qed
qed

lemma scan_inactive_eq:
  "scan_inactive h first es =
     (case find (\<lambda>a. core_id (h a) = - 1) (first # es) of Some w \<Rightarrow> w | None \<Rightarrow> last (first # es))"
  by (induction es arbitrary: first) (auto split: option.splits)

lemma scan_inactive_waiting:
  "find (\<lambda>a. core_id (h a) = - 1) (first # es) = Some w \<Longrightarrow> scan_inactive h first es = w"
  by (simp only: scan_inactive_eq option.case)

lemma scan_inactive_busy:
  assumes "find (\<lambda>a. core_id (h a) = - 1) (first # es) = None"
  shows "core_id (h (scan_inactive h first es)) \<noteq> - 1"
proof -
  have e: "scan_inactive h first es = last (first # es)"
    using assms by (simp only: scan_inactive_eq option.case)
  have m: "last (first # es) \<in> set (first # es)" by (rule last_in_set) simp
  have "\<not> (\<exists>x. x \<in> set (first # es) \<and> core_id (h x) = - 1)"
    using find_None_iff [THEN iffD1, OF assms] .
  then have n: "\<forall>x \<in> set (first # es). core_id (h x) \<noteq> - 1" by blast
  show ?thesis unfolding e by (rule bspec [OF n m])
qed

lemma dispatch_next_eq:
  "dispatch_next core (Some c) time s =
     (case find (\<lambda>a. core_id (heap s a) = - 1) (elems (head s)) of
        None \<Rightarrow> Inr (- 1, s)
      | Some w \<Rightarrow>
          if 0 \<le> core \<and> core < int (length (core_arr s)) then
            Inr (job_id (heap s w),
                 s\<lparr>heap := (heap s)(w := admit time c (heap s w)),
                   core_arr := (core_arr s)[nat core := 1]\<rparr>)
          else Inl OutOfBounds)"
proof (cases "elems (head s)")
  case Nil
  then show ?thesis by (simp add: dispatch_next_def)
next
  case (Cons first es)
  show ?thesis
  proof (cases "find (\<lambda>a. core_id (heap s a) = - 1) (first # es)")
    case None
    then have rhs: "find (\<lambda>a. core_id (heap s a) = - 1) (elems (head s)) = None"
      by (simp only: Cons)
    show ?thesis unfolding rhs
      using scan_inactive_busy [OF None] Cons by (simp add: dispatch_next_def)
  next
    case (Some w)
    then have "\<exists>i<length (first # es). core_id (heap s ((first # es) ! i)) = - 1 \<and> w = (first # es) ! i \<and>
         (\<forall>j<i. \<not> core_id (heap s ((first # es) ! j)) = - 1)"
      by (rule find_Some_iff [THEN iffD1])
    then have w: "core_id (heap s w) = - 1" by blast
    have rhs: "find (\<lambda>a. core_id (heap s a) = - 1) (elems (head s)) = Some w"
      using Some by (simp only: Cons)
    show ?thesis unfolding rhs
      using scan_inactive_waiting [OF Some] w Cons by (simp add: dispatch_next_def)
  qed
qed


lemma admit_fields [simp]:
  "job_id (admit t c j) = job_id j" "arr_time (admit t c j) = arr_time j"
  "duration (admit t c j) = duration j" "priority (admit t c j) = priority j"
  "remaining_time (admit t c j) = remaining_time j"
  "turnover_time (admit t c j) = turnover_time j" "turn (admit t c j) = turn j"
  "core_id (admit t c j) = c" "start_wait (admit t c j) = - 1"
  "response_time (admit t c j) = (if response_time j = - 1 then t - arr_time j else response_time j)"
  "wait_time (admit t c j) =
     (if response_time j = - 1 then t - arr_time j else wait_time j) +
     (if start_wait j \<noteq> - 1 then t - start_wait j else 0)"
  by (simp_all add: admit_def Let_def)

lemma retire_fields [simp]:
  "job_id (retire rr t j) = job_id j" "arr_time (retire rr t j) = arr_time j"
  "duration (retire rr t j) = duration j" "priority (retire rr t j) = priority j"
  "remaining_time (retire rr t j) = duration j - (t - wait_time j - arr_time j)"
  "turnover_time (retire rr t j) = t - arr_time j"
  "turn (retire rr t j) = (if rr then - 1 else turn j)"
  "core_id (retire rr t j) = - 1" "start_wait (retire rr t j) = start_wait j"
  "response_time (retire rr t j) = response_time j" "wait_time (retire rr t j) = wait_time j"
  by (simp_all add: retire_def)

lemma yield_fields [simp]:
  "job_id (yield t j) = job_id j" "arr_time (yield t j) = arr_time j"
  "duration (yield t j) = duration j" "priority (yield t j) = priority j"
  "remaining_time (yield t j) = duration j - (t - wait_time j - arr_time j)"
  "turnover_time (yield t j) = turnover_time j" "turn (yield t j) = turn j"
  "core_id (yield t j) = - 1" "start_wait (yield t j) = t"
  "response_time (yield t j) = response_time j" "wait_time (yield t j) = wait_time j"
  by (simp_all add: yield_def recompute_def)

lemma renumber_other: "a \<notin> set es \<Longrightarrow> renumber i es h a = h a"
  by (induction es arbitrary: i h) auto

lemma renumber_fields [simp]:
  "job_id (renumber i es h a) = job_id (h a)" "arr_time (renumber i es h a) = arr_time (h a)"
  "duration (renumber i es h a) = duration (h a)" "priority (renumber i es h a) = priority (h a)"
  "remaining_time (renumber i es h a) = remaining_time (h a)"
  "turnover_time (renumber i es h a) = turnover_time (h a)"
  "core_id (renumber i es h a) = core_id (h a)" "start_wait (renumber i es h a) = start_wait (h a)"
  "response_time (renumber i es h a) = response_time (h a)"
  "wait_time (renumber i es h a) = wait_time (h a)"
  by (induction es arbitrary: i h; simp)+

lemma renumber_turns:
  "distinct es \<Longrightarrow> map (\<lambda>a. turn (renumber i es h a)) es = map int [i..<i + length es]"
proof (induction es arbitrary: i h)
  case Nil
  then show ?case by simp
next
  case (Cons a es)
  have "turn (renumber (Suc i) es (h(a := (h a)\<lparr>turn := int i\<rparr>)) a) = int i"
    using Cons.prems by (simp add: renumber_other)
  moreover have "map (\<lambda>b. turn (renumber (Suc i) es (h(a := (h a)\<lparr>turn := int i\<rparr>)) b)) es
       = map int [Suc i..<Suc i + length es]"
    using Cons.prems by (intro Cons.IH) simp
  moreover have "[i..<i + Suc (length es)] = i # [Suc i..<i + Suc (length es)]"
    by (rule upt_conv_Cons) simp
  ultimately show ?case by (simp del: upt_Suc)
qed

lemma remove_at_eq_remove1:
  "distinct es \<Longrightarrow> k < length es \<Longrightarrow> take k es @ drop (Suc k) es = remove1 (es ! k) es"
proof (induction es arbitrary: k)
  case Nil
  then show ?case by simp
next
  case (Cons a es)
  then show ?case by (cases k) auto
qed

lemma finish_loop_none:
  "\<forall>k. i \<le> k \<and> k < length es \<longrightarrow> job_id (h (es ! k)) \<noteq> jn \<Longrightarrow>
   finish_loop rr time jn i (h, es, f) = (h, es, f)"
proof (induction "length es - i" arbitrary: i)
  case 0
  then show ?case by (simp add: finish_loop.simps)
next
  case (Suc d)
  then have "i < length es" by simp
  moreover have "job_id (h (es ! i)) \<noteq> jn" using Suc.prems \<open>i < length es\<close> by simp
  moreover have "finish_loop rr time jn (Suc i) (h, es, f) = (h, es, f)"
    using Suc by (intro Suc.hyps(1)) auto
  ultimately show ?case by (simp add: finish_loop.simps [of _ _ _ i])
qed

lemma finish_loop_found:
  assumes d: "distinct es"
    and u: "\<forall>x \<in> set es. \<forall>y \<in> set es. job_id (h x) = job_id (h y) \<longrightarrow> x = y"
    and a: "a \<in> set es" "job_id (h a) = jn"
  shows "i \<le> length es \<Longrightarrow> a \<in> set (drop i es) \<Longrightarrow>
     finish_loop rr time jn i (h, es, f) = (h(a := retire rr time (h a)), remove1 a es, True)"
proof (induction "length es - i" arbitrary: i)
  case 0
  then show ?case by simp
next
  case (Suc d')
  then have il: "i < length es" by simp
  show ?case
  proof (cases "es ! i = a")
    case True
    let ?h = "h(a := retire rr time (h a))"
    let ?es = "take i es @ drop (Suc i) es"
    have es': "?es = remove1 a es" using remove_at_eq_remove1 [OF d il] True by simp
    have "\<forall>k. Suc i \<le> k \<and> k < length ?es \<longrightarrow> job_id (?h (?es ! k)) \<noteq> jn"
    proof (intro allI impI)
      fix k assume k: "Suc i \<le> k \<and> k < length ?es"
      then have "?es ! k \<in> set ?es" by (intro nth_mem) simp
      then have m: "?es ! k \<in> set es" "?es ! k \<noteq> a" using d by (auto simp: es')
      then have "job_id (h (?es ! k)) \<noteq> jn" using u a by blast
      with m show "job_id (?h (?es ! k)) \<noteq> jn" by simp
    qed
    from finish_loop_none [OF this] have "finish_loop rr time jn (Suc i) (?h, ?es, True) = (?h, ?es, True)" .
    with il True a show ?thesis by (simp add: es' finish_loop.simps [of _ _ _ i])
  next
    case False
    have "es ! i \<in> set es" using il by simp
    with False u a have ne: "job_id (h (es ! i)) \<noteq> jn" by blast
    have "drop i es = es ! i # drop (Suc i) es" using il by (simp add: Cons_nth_drop_Suc)
    with Suc.prems False have "a \<in> set (drop (Suc i) es)" by auto
    then have "finish_loop rr time jn (Suc i) (h, es, f) = (h(a := retire rr time (h a)), remove1 a es, True)"
      using Suc il by (intro Suc.hyps(1)) auto
    with il ne show ?thesis by (simp add: finish_loop.simps [of _ _ _ i])
  qed
qed

lemma find_waiting:
  assumes "find (\<lambda>a. core_id (h a) = - 1) es = Some w"
  shows "w \<in> set es" "core_id (h w) = - 1"
proof -
  from assms have "\<exists>i<length es. core_id (h (es ! i)) = - 1 \<and> w = es ! i \<and>
      (\<forall>j<i. \<not> core_id (h (es ! j)) = - 1)"
    by (rule find_Some_iff [THEN iffD1])
  then obtain i where "i < length es" "core_id (h (es ! i)) = - 1" "w = es ! i" by blast
  then show "w \<in> set es" "core_id (h w) = - 1" by auto
qed

lemma dispatch_inv:
  assumes I: "sched_inv cores scheme time s" and core: "0 \<le> core" "core < numOfCores s"
    and free: "core_arr s ! nat core = 0"
  shows "\<exists>r s'. dispatch_next core (Some core) time s = Inr (r, s') \<and> sched_inv cores scheme time s'"
proof (cases "find (\<lambda>a. core_id (heap s a) = - 1) (elems (head s))")
  case None
  then have "dispatch_next core (Some core) time s = Inr (- 1, s)"
    by (simp add: dispatch_next_eq)
  with I show ?thesis by blast
next
  case (Some w)
  from I have R: "registry_ok s" and Q: "queue_ok s" and C: "cores_ok s" and RRI: "rr_ok s"
    and T: "times_ok time s" and nc: "numOfCores s = cores" and sc: "sch s = scheme"
    by (auto simp: sched_inv_def)
  have len: "length (core_arr s) = nat (numOfCores s)" using C by (simp add: cores_ok_def)
  have w: "w \<in> set (elems (head s))" "core_id (heap s w) = - 1" using find_waiting [OF Some] by auto
  have wn: "w < nalloc s" using Q w by (auto simp: queue_ok_def)
  define h' where "h' = (heap s)(w := admit time core (heap s w))"
  define s' where "s' = s\<lparr>heap := h', core_arr := (core_arr s)[nat core := 1]\<rparr>"
  have res: "dispatch_next core (Some core) time s = Inr (job_id (heap s w), s')"
    using Some core len by (simp add: dispatch_next_eq s'_def h'_def)
  have A0: "assignment_ok (core_arr s) (set (elems (head s))) (\<lambda>a. core_id (heap s a))"
    using C by (simp add: cores_ok_def)
  have "assignment_ok ((core_arr s)[nat core := 1]) (set (elems (head s)))
          ((\<lambda>a. core_id (heap s a))(w := int (nat core)))"
  proof (rule assignment_assign [OF A0])
    show "w \<in> set (elems (head s))" by (rule w)
    show "core_id (heap s w) = - 1" by (rule w)
    show "nat core < length (core_arr s)" using core len by simp
    show "core_arr s ! nat core = 0" by (rule free)
  qed
  then have asg: "assignment_ok ((core_arr s)[nat core := 1]) (set (elems (head s))) (\<lambda>a. core_id (h' a))"
    by (rule assignment_cong) (use core in \<open>auto simp: h'_def\<close>)
  have "registry_ok s'" using R by (auto simp: registry_ok_def s'_def h'_def)
  moreover have "queue_ok s'" using Q by (auto simp: queue_ok_def s'_def)
  moreover have "cores_ok s'" using C asg w by (auto simp: cores_ok_def s'_def h'_def)
  moreover have "rr_ok s'"
  proof -
    have "\<And>x. turn (h' x) = turn (heap s x)" by (simp add: h'_def)
    with RRI show ?thesis by (simp add: rr_ok_def s'_def)
  qed
  moreover have "times_ok time s'"
    unfolding times_ok_def
  proof (intro allI impI)
    fix a assume "a < nalloc s'"
    then have a: "a < nalloc s" by (simp add: s'_def)
    with T have ta: "arr_time (heap s a) \<le> time"
      "start_wait (heap s a) \<noteq> - 1 \<longrightarrow> start_wait (heap s a) \<le> time"
      "response_time (heap s a) = - 1 \<or> 0 \<le> response_time (heap s a)"
      "response_time (heap s a) \<noteq> - 1 \<longrightarrow> 0 \<le> wait_time (heap s a)"
      "core_id (heap s a) \<noteq> - 1 \<longrightarrow> response_time (heap s a) \<noteq> - 1"
      by (auto simp: times_ok_def)
    show "arr_time (heap s' a) \<le> time \<and>
       (start_wait (heap s' a) \<noteq> - 1 \<longrightarrow> start_wait (heap s' a) \<le> time) \<and>
       (response_time (heap s' a) = - 1 \<or> 0 \<le> response_time (heap s' a)) \<and>
       (response_time (heap s' a) \<noteq> - 1 \<longrightarrow> 0 \<le> wait_time (heap s' a)) \<and>
       (core_id (heap s' a) \<noteq> - 1 \<longrightarrow> response_time (heap s' a) \<noteq> - 1)"
    proof (cases "a = w")
      case False
      with ta show ?thesis by (simp add: s'_def h'_def)
    next
      case True
      with ta show ?thesis by (auto simp: s'_def h'_def)
    qed
  qed
  ultimately have "sched_inv cores scheme time s'" using nc sc by (simp add: sched_inv_def s'_def)
  with res show ?thesis by blast
qed

lemma queue_ids_unique:
  assumes "registry_ok s" "queue_ok s"
  shows "\<forall>x \<in> set (elems (head s)). \<forall>y \<in> set (elems (head s)).
           job_id (heap s x) = job_id (heap s y) \<longrightarrow> x = y"
proof (intro ballI impI)
  fix x y assume xy: "x \<in> set (elems (head s))" "y \<in> set (elems (head s))"
    and e: "job_id (heap s x) = job_id (heap s y)"
  from assms xy have b: "x < nalloc s" "y < nalloc s" by (auto simp: queue_ok_def)
  from assms(1) have inc: "\<And>a b. a < nalloc s \<Longrightarrow> b < nalloc s \<Longrightarrow> a < b \<Longrightarrow>
      job_id (heap s a) < job_id (heap s b)" by (auto simp: registry_ok_def)
  show "x = y"
  proof (rule ccontr)
    assume "x \<noteq> y"
    then consider "x < y" | "y < x" by linarith
    then show False using inc [of x y] inc [of y x] b e by cases auto
  qed
qed

lemma job_finished_eq:
  assumes I: "sched_inv cores scheme t s"
    and a: "a \<in> set (elems (head s))" "job_id (heap s a) = jn" "core_id (heap s a) = core"
    and core: "0 \<le> core"
  shows "scheduler_job_finished core jn time s =
           dispatch_next core (Some core) time (after_finish core a time s)"
proof -
  from I have R: "registry_ok s" and Q: "queue_ok s" and C: "cores_ok s"
    by (auto simp: sched_inv_def)
  have d: "distinct (elems (head s))" using Q by (simp add: queue_ok_def)
  have A0: "assignment_ok (core_arr s) (set (elems (head s))) (\<lambda>a. core_id (heap s a))"
    using C by (simp add: cores_ok_def)
  have rng: "core < int (length (core_arr s))"
    using A0 a core unfolding assignment_ok_def by auto
  have fl: "finish_loop (sch s = RR) time jn 0 (heap s, elems (head s), False) =
      ((heap s)(a := retire (sch s = RR) time (heap s a)), remove1 a (elems (head s)), True)"
    using d queue_ids_unique [OF R Q] a(1,2) by (rule finish_loop_found) (use a in auto)
  show ?thesis
    using core rng by (simp add: scheduler_job_finished_def fl after_finish_def Let_def)
qed


lemma times_ok_mono: "times_ok t s \<Longrightarrow> t \<le> time \<Longrightarrow> times_ok time s"
  by (fastforce simp: times_ok_def)

lemma after_finish_inv:
  assumes I: "sched_inv cores scheme t s" and le: "t \<le> time"
    and a: "a \<in> set (elems (head s))" "core_id (heap s a) = core"
    and core: "0 \<le> core"
  shows "sched_inv cores scheme time (after_finish core a time s)"
    and "core_arr (after_finish core a time s) ! nat core = 0"
    and "core < numOfCores (after_finish core a time s)"
proof -
  from I have R: "registry_ok s" and Q: "queue_ok s" and C: "cores_ok s" and RRI: "rr_ok s"
    and T: "times_ok t s" and nc: "numOfCores s = cores" and sc: "sch s = scheme"
    by (auto simp: sched_inv_def)
  define es where "es = remove1 a (elems (head s))"
  define h where "h = (heap s)(a := retire (sch s = RR) time (heap s a))"
  define h2 where "h2 = (if sch s = RR then renumber 0 es h else h)"
  define s2 where "s2 = after_finish core a time s"
  have s2: "s2 = s\<lparr>numOfJobs := numOfJobs s - 1, core_arr := (core_arr s)[nat core := 0],
           heap := h2, head := (head s)\<lparr>elems := es\<rparr>\<rparr>"
    by (simp add: s2_def after_finish_def Let_def h2_def h_def es_def)
  have d: "distinct (elems (head s))" using Q by (simp add: queue_ok_def)
  then have des: "distinct es" and ses: "set es = set (elems (head s)) - {a}"
    by (simp_all add: es_def)
  have len: "length (core_arr s) = nat (numOfCores s)" using C by (simp add: cores_ok_def)
  have A0: "assignment_ok (core_arr s) (set (elems (head s))) (\<lambda>a. core_id (heap s a))"
    using C by (simp add: cores_ok_def)
  have rng: "core < int (length (core_arr s))"
    using A0 a core unfolding assignment_ok_def by auto
  have cid2: "\<And>x. core_id (h2 x) = (if x = a then - 1 else core_id (heap s x))"
    by (simp add: h2_def h_def)
  have "assignment_ok ((core_arr s)[nat (core_id (heap s a)) := 0]) (set (elems (head s)))
          ((\<lambda>a. core_id (heap s a))(a := - 1))"
    using A0 a(1) by (rule assignment_release) (use a core in auto)
  then have "assignment_ok ((core_arr s)[nat core := 0]) (set (elems (head s)) - {a})
          ((\<lambda>a. core_id (heap s a))(a := - 1))"
    unfolding a(2) by (rule assignment_remove) simp
  then have asg: "assignment_ok ((core_arr s)[nat core := 0]) (set es) (\<lambda>x. core_id (h2 x))"
    unfolding ses by (rule assignment_cong) (simp add: cid2)
  have "registry_ok s2" using R by (auto simp: registry_ok_def s2 h2_def h_def)
  moreover have "queue_ok s2" using Q des ses by (auto simp: queue_ok_def s2)
  moreover have "cores_ok s2"
    using C asg ses by (auto simp: cores_ok_def s2 cid2)
  moreover have "rr_ok s2"
    using renumber_turns [OF des, of 0 h] by (simp add: rr_ok_def s2 h2_def)
  moreover have "times_ok time s2"
    using times_ok_mono [OF T le] by (simp add: times_ok_def s2 h2_def h_def)
  ultimately show "sched_inv cores scheme time (after_finish core a time s)"
    using nc sc by (simp add: sched_inv_def s2 s2_def [symmetric])
  show "core_arr (after_finish core a time s) ! nat core = 0"
    using rng core by (simp add: s2 s2_def [symmetric])
  show "core < numOfCores (after_finish core a time s)"
    using rng len core by (simp add: s2 s2_def [symmetric] split: if_splits)
qed

lemma job_finished_inv:
  assumes I: "sched_inv cores scheme t s" and P: "pre t s (JobFinished core jn time)"
  shows "\<exists>r s'. scheduler_job_finished core jn time s = Inr (r, s') \<and> sched_inv cores scheme time s'"
proof -
  from P obtain a where a: "a \<in> set (elems (head s))" "job_id (heap s a) = jn"
    "core_id (heap s a) = core" and core: "0 \<le> core" and le: "t \<le> time" by auto
  note af = after_finish_inv [OF I le a(1,3) core]
  show ?thesis
    unfolding job_finished_eq [OF I a core]
    by (rule dispatch_inv [OF af(1) core af(3) af(2)])
qed

lemma find_unique:
  "x \<in> set xs \<Longrightarrow> P x \<Longrightarrow> \<forall>y \<in> set xs. P y \<longrightarrow> y = x \<Longrightarrow> find P xs = Some x"
proof (induction xs)
  case Nil
  then show ?case by simp
next
  case (Cons a xs)
  show ?case
  proof (cases "P a")
    case True
    have "a \<in> set (a # xs)" by simp
    with Cons.prems(3) True have "a = x" by blast
    with True show ?thesis by simp
  next
    case False
    with Cons.prems(1,2) have m: "x \<in> set xs" by auto
    have u: "\<forall>y \<in> set xs. P y \<longrightarrow> y = x" using Cons.prems(3) by simp
    have "find P xs = Some x" by (rule Cons.IH [OF m Cons.prems(2) u])
    with False show ?thesis by simp
  qed
qed

lemma after_expiry_inv:
  assumes I: "sched_inv cores scheme t s" and le: "t \<le> time"
    and a: "cur \<in> set (elems (head s))" "core_id (heap s cur) = core"
    and core: "0 \<le> core"
  shows "sched_inv cores scheme time (after_expiry core cur time s)"
    and "core_arr (after_expiry core cur time s) ! nat core = 0"
    and "core < numOfCores (after_expiry core cur time s)"
proof -
  from I have R: "registry_ok s" and Q: "queue_ok s" and C: "cores_ok s" and RRI: "rr_ok s"
    and T: "times_ok t s" and nc: "numOfCores s = cores" and sc: "sch s = scheme"
    by (auto simp: sched_inv_def)
  define es where "es = remove1 cur (elems (head s))"
  define h2 where "h2 = (heap s)(cur := (yield time (heap s cur))\<lparr>turn := int (length es)\<rparr>)"
  define h3 where "h3 = renumber 0 es h2"
  define s2 where "s2 = after_expiry core cur time s"
  have s2: "s2 = s\<lparr>core_arr := (core_arr s)[nat core := 0],
           heap := h3, head := (head s)\<lparr>elems := es @ [cur]\<rparr>\<rparr>"
    by (simp add: s2_def after_expiry_def Let_def h3_def h2_def es_def)
  have d: "distinct (elems (head s))" using Q by (simp add: queue_ok_def)
  then have des: "distinct es" and ses: "set es = set (elems (head s)) - {cur}"
    by (simp_all add: es_def)
  have sq: "set (es @ [cur]) = set (elems (head s))" using ses a(1) by auto
  have len: "length (core_arr s) = nat (numOfCores s)" using C by (simp add: cores_ok_def)
  have A0: "assignment_ok (core_arr s) (set (elems (head s))) (\<lambda>a. core_id (heap s a))"
    using C by (simp add: cores_ok_def)
  have rng: "core < int (length (core_arr s))"
    using A0 a core unfolding assignment_ok_def by auto
  have cid2: "\<And>x. core_id (h3 x) = (if x = cur then - 1 else core_id (heap s x))"
    by (simp add: h3_def h2_def)
  have "assignment_ok ((core_arr s)[nat (core_id (heap s cur)) := 0]) (set (elems (head s)))
          ((\<lambda>a. core_id (heap s a))(cur := - 1))"
    using A0 a(1) by (rule assignment_release) (use a core in auto)
  then have asg: "assignment_ok ((core_arr s)[nat core := 0]) (set (elems (head s))) (\<lambda>x. core_id (h3 x))"
    unfolding a(2) by (rule assignment_cong) (simp add: cid2)
  have "registry_ok s2" using R by (auto simp: registry_ok_def s2 h3_def h2_def)
  moreover have "queue_ok s2" using Q des ses sq by (auto simp: queue_ok_def s2)
  moreover have "cores_ok s2"
    using C asg sq by (auto simp: cores_ok_def s2 cid2)
  moreover have "rr_ok s2"
  proof -
    have "cur \<notin> set es" using ses by simp
    then have "turn (h3 cur) = int (length es)" by (simp add: h3_def renumber_other h2_def)
    then show ?thesis
      using renumber_turns [OF des, of 0 h2] by (simp add: rr_ok_def s2 h3_def)
  qed
  moreover have "times_ok time s2"
    using times_ok_mono [OF T le] a Q
    by (auto simp: times_ok_def s2 h3_def h2_def queue_ok_def)
  ultimately show "sched_inv cores scheme time (after_expiry core cur time s)"
    using nc sc by (simp add: sched_inv_def s2 s2_def [symmetric])
  show "core_arr (after_expiry core cur time s) ! nat core = 0"
    using rng core by (simp add: s2 s2_def [symmetric])
  show "core < numOfCores (after_expiry core cur time s)"
    using rng len core by (simp add: s2 s2_def [symmetric] split: if_splits)
qed


lemma dispatch_next_free:
  assumes "find (\<lambda>a. core_id (h a) = - 1) es \<noteq> None"
  shows "dispatch_next core (Some c) time
           (s\<lparr>core_arr := arr[nat core := x], heap := h, head := (head s)\<lparr>elems := es\<rparr>\<rparr>) =
         dispatch_next core (Some c) time
           (s\<lparr>core_arr := arr[nat core := y], heap := h, head := (head s)\<lparr>elems := es\<rparr>\<rparr>)"
  using assms by (auto simp: dispatch_next_eq)

lemma quantum_expired_eq:
  assumes I: "sched_inv cores scheme t s"
    and a: "cur \<in> set (elems (head s))" "core_id (heap s cur) = core"
    and core: "0 \<le> core" and rr: "sch s = RR"
  shows "scheduler_quantum_expired core time s =
           dispatch_next core (Some core) time (after_expiry core cur time s)"
proof -
  from I have R: "registry_ok s" and Q: "queue_ok s" and C: "cores_ok s" and RRI: "rr_ok s"
    by (auto simp: sched_inv_def)
  define es where "es = remove1 cur (elems (head s))"
  define h2 where "h2 = (heap s)(cur := (yield time (heap s cur))\<lparr>turn := int (length es)\<rparr>)"
  define h3 where "h3 = renumber 0 es h2"
  have d: "distinct (elems (head s))" using Q by (simp add: queue_ok_def)
  then have des: "distinct es" and ses: "set es = set (elems (head s)) - {cur}"
    by (simp_all add: es_def)
  have A0: "assignment_ok (core_arr s) (set (elems (head s))) (\<lambda>a. core_id (heap s a))"
    using C by (simp add: cores_ok_def)
  have rng: "core < int (length (core_arr s))"
    using A0 a core unfolding assignment_ok_def by auto
  have uniq: "\<forall>y \<in> set (elems (head s)). core_id (heap s y) = core \<longrightarrow> y = cur"
  proof (intro ballI impI)
    fix y assume y: "y \<in> set (elems (head s))" "core_id (heap s y) = core"
    have "core_id (heap s y) = core_id (heap s cur)" using y a by simp
    moreover have "core_id (heap s y) \<noteq> - 1" using y core by simp
    ultimately show "y = cur" using A0 y(1) a(1) unfolding assignment_ok_def by blast
  qed
  have fnd: "find (\<lambda>a. core_id (heap s a) = core) (elems (head s)) = Some cur"
    using a(1,2) uniq by (rule find_unique)
  have c4: "comparer ((head s)\<lparr>elems := es\<rparr>) = compare4" using Q rr by (simp add: queue_ok_def)
  have cn: "cur \<notin> set es" using ses by simp
  then have tc: "turn (h3 cur) = int (length es)" by (simp add: h3_def renumber_other h2_def)
  have "map (\<lambda>a. turn (h3 a)) es = map int [0..<length es]"
    using renumber_turns [OF des, of 0 h2] by (simp add: h3_def)
  from rr_turn_bound [OF this] tc
  have "\<forall>e \<in> set (elems ((head s)\<lparr>elems := es\<rparr>)). turn (h3 e) \<le> turn (h3 cur)" by fastforce
  from offer_rr [OF c4 this]
  have off: "priqueue_offer h3 ((head s)\<lparr>elems := es\<rparr>) cur = (length es, (head s)\<lparr>elems := es @ [cur]\<rparr>)"
    by simp
  have "core_id (h3 cur) = - 1" by (simp add: h3_def h2_def)
  then have "\<exists>x. x \<in> set (es @ [cur]) \<and> core_id (h3 x) = - 1" by auto
  then have wt: "find (\<lambda>a. core_id (h3 a) = - 1) (es @ [cur]) \<noteq> None"
    by (simp only: find_None_iff not_not)
  have u1: "scheduler_quantum_expired core time s =
      dispatch_next core (Some core) time
        (s\<lparr>core_arr := (core_arr s)[nat core := - 1], heap := h3,
           head := (head s)\<lparr>elems := es @ [cur]\<rparr>\<rparr>)"
    unfolding scheduler_quantum_expired_def fnd option.case Let_def
      es_def [symmetric] h2_def [symmetric]
    using core rng by (simp add: h2_def [symmetric] h3_def [symmetric] off)
  have u2: "after_expiry core cur time s =
      s\<lparr>core_arr := (core_arr s)[nat core := 0], heap := h3,
         head := (head s)\<lparr>elems := es @ [cur]\<rparr>\<rparr>"
    by (simp add: after_expiry_def Let_def h3_def h2_def es_def)
  show ?thesis unfolding u1 u2 by (rule dispatch_next_free [OF wt])
qed

lemma quantum_expired_inv:
  assumes I: "sched_inv cores scheme t s" and P: "pre t s (QuantumExpired core time)"
  shows "\<exists>r s'. scheduler_quantum_expired core time s = Inr (r, s') \<and> sched_inv cores scheme time s'"
proof -
  from P obtain cur where a: "cur \<in> set (elems (head s))" "core_id (heap s cur) = core"
    and core: "0 \<le> core" and le: "t \<le> time" and rr: "sch s = RR" by auto
  note af = after_expiry_inv [OF I le a core]
  show ?thesis
    unfolding quantum_expired_eq [OF I a core rr]
    by (rule dispatch_inv [OF af(1) core af(3) af(2)])
qed

lemma step_inv:
  assumes "sched_inv cores scheme t s" "pre t s e"
  shows "\<exists>r s'. step s e = Inr (r, s') \<and> sched_inv cores scheme (event_time e) s'"
proof (cases e)
  case (NewJob jn time rt pr)
  with assms new_job_inv [of cores scheme t s jn time rt pr] show ?thesis by simp
next
  case (JobFinished core jn time)
  with assms job_finished_inv [of cores scheme t s core jn time] show ?thesis by simp
next
  case (QuantumExpired core time)
  with assms quantum_expired_inv [of cores scheme t s core time] show ?thesis by simp
qed

lemma exec_inv:
  "sched_inv cores scheme t s \<Longrightarrow> admissible t s evs \<Longrightarrow>
   \<exists>s'. exec s evs = Inr s' \<and> sched_inv cores scheme (now t evs) s'"
proof (induction evs arbitrary: t s)
  case Nil
  then show ?case by simp
next
  case (Cons e evs)
  then have p: "pre t s e" by simp
  from step_inv [OF Cons.prems(1) p] obtain r s1 where
    s1: "step s e = Inr (r, s1)" "sched_inv cores scheme (event_time e) s1" by blast
  with Cons.prems have "admissible (event_time e) s1 evs" by simp
  from Cons.IH [OF s1(2) this] s1(1) show ?case by simp
qed

lemma reach_inv:
  assumes "0 < cores" "admissible t0 (scheduler_start_up cores scheme) evs"
  shows "\<exists>s. exec (scheduler_start_up cores scheme) evs = Inr s \<and> sched_inv cores scheme (now t0 evs) s"
  using exec_inv [OF sched_inv_start [OF assms(1)] assms(2)] .

lemma preempt_recompute [simp]: "preempt t (recompute t j) = preempt t j"
  by (simp add: preempt_def recompute_def Let_def)

lemma offer_remove1:
  assumes "a \<notin> set (elems q)"
  shows "remove1 a (elems (snd (priqueue_offer h q a))) = elems q"
proof -
  have "a \<notin> set (takeWhile (not_before q h a) (elems q))"
    using assms by (auto dest: set_takeWhileD)
  then show ?thesis by (simp add: priqueue_offer_def remove1_append)
qed

lemma new_job_effect:
  assumes I: "sched_inv cores scheme t s" and P: "pre t s (NewJob jn time rt pr)"
  shows "\<exists>r s' V. scheduler_new_job jn time rt pr s = Inr (r, s') \<and>
     nalloc s' = Suc (nalloc s) \<and>
     (\<forall>a. a \<noteq> nalloc s \<longrightarrow> heap s' a =
        (if V = Some a then preempt time (heap s a)
         else if a \<in> set (elems (head s)) \<and> core_id (heap s a) \<noteq> - 1
              then recompute time (heap s a) else heap s a)) \<and>
     (case V of None \<Rightarrow> True
      | Some v \<Rightarrow> v \<in> set (elems (head s)) \<and> core_id (heap s v) \<noteq> - 1 \<and>
          (sch s = PSJF \<or> sch s = PPRI) \<and> r = core_id (heap s v) \<and> find_idle s = None) \<and>
     heap s' (nalloc s) = (new_job_t jn time rt pr)
        \<lparr>wait_time := (if r = - 1 then - 1 else 0),
         response_time := (if r = - 1 then - 1 else 0),
         turn := (if sch s = RR then int (length (elems (head s))) else - 1),
         core_id := r\<rparr> \<and>
     core_arr s' = (if r = - 1 then core_arr s else (core_arr s)[nat r := 1]) \<and>
     (r = - 1 \<longleftrightarrow> find_idle s = None \<and> V = None) \<and>
     (\<forall>i. find_idle s = Some i \<longrightarrow> r = int i) \<and>
     set (elems (head s')) = insert (nalloc s) (set (elems (head s))) \<and>
     remove1 (nalloc s) (elems (head s')) = elems (head s)"
proof -
  define h1 where "h1 = update_active time (elems (head s)) ((heap s)(nalloc s := new_job_t jn time rt pr))"
  define s1 where "s1 = s\<lparr>numOfJobs := numOfJobs s + 1, totalJobs := totalJobs s + 1,
      job_ptr := [0..<Suc (nalloc s)], nalloc := Suc (nalloc s)\<rparr>"
  from I have R: "registry_ok s" and Q: "queue_ok s" and C: "cores_ok s"
    by (auto simp: sched_inv_def)
  have lk: "link_job jn (totalJobs s + 1) (job_ptr s) (nalloc s) = Inr [0..<Suc (nalloc s)]"
    using link_ok [OF R P] .
  have esn: "\<forall>a \<in> set (elems (head s)). a < nalloc s" using Q by (auto simp: queue_ok_def)
  then have nn: "nalloc s \<notin> set (elems (head s))" by auto
  have len: "length (core_arr s) = nat (numOfCores s)" "0 < numOfCores s"
    using C by (auto simp: cores_ok_def)
  have A0: "assignment_ok (core_arr s) (set (elems (head s))) (\<lambda>a. core_id (heap s a))"
    using C by (simp add: cores_ok_def)
  have h1n: "h1 (nalloc s) = new_job_t jn time rt pr" using nn by (simp add: h1_def update_active_apply)
  have h1o: "\<And>a. a \<noteq> nalloc s \<Longrightarrow> h1 a =
      (if a \<in> set (elems (head s)) \<and> core_id (heap s a) \<noteq> - 1
       then recompute time (heap s a) else heap s a)"
    by (simp add: h1_def update_active_apply)
  have unf: "scheduler_new_job jn time rt pr s =
     (case find_idle s of
        Some i \<Rightarrow>
          Inr (int i, s1\<lparr>heap := h1(nalloc s := (h1 (nalloc s))\<lparr>core_id := int i, wait_time := 0, response_time := 0,
                            turn := (if sch s = RR then priqueue_size (head s) else turn (h1 (nalloc s)))\<rparr>),
                 head := snd (priqueue_offer (h1(nalloc s := (h1 (nalloc s))\<lparr>core_id := int i, wait_time := 0, response_time := 0,
                            turn := (if sch s = RR then priqueue_size (head s) else turn (h1 (nalloc s)))\<rparr>)) (head s) (nalloc s)),
                 core_arr := (core_arr s)[i := 1]\<rparr>)
      | None \<Rightarrow>
          if sch s = PSJF \<or> sch s = PPRI then
            (if int (fst (priqueue_offer h1 (head s) (nalloc s))) < numOfCores s then
               (case find_victim h1 (elems (snd (priqueue_offer h1 (head s) (nalloc s)))) of
                  Some v \<Rightarrow>
                    if 0 \<le> core_id (h1 v) \<and> core_id (h1 v) < int (length (core_arr s)) then
                      Inr (core_id (h1 v),
                           s1\<lparr>heap := (h1(v := preempt time (h1 v)))
                                  (nalloc s := ((h1(v := preempt time (h1 v))) (nalloc s))
                                     \<lparr>core_id := core_id (h1 v), wait_time := 0, response_time := 0\<rparr>),
                              head := snd (priqueue_offer h1 (head s) (nalloc s)),
                              core_arr := (core_arr s)[nat (core_id (h1 v)) := 1]\<rparr>)
                    else Inl OutOfBounds
                | None \<Rightarrow>
                    Inr (- 1, s1\<lparr>heap := h1(nalloc s := (h1 (nalloc s))\<lparr>core_id := - 1, wait_time := 0, response_time := 0\<rparr>),
                                head := snd (priqueue_offer h1 (head s) (nalloc s))\<rparr>))
             else Inr (- 1, s1\<lparr>heap := h1, head := snd (priqueue_offer h1 (head s) (nalloc s))\<rparr>))
          else
            Inr (- 1, s1\<lparr>heap := h1(nalloc s := (h1 (nalloc s))\<lparr>turn := (if sch s = RR then priqueue_size (head s) else turn (h1 (nalloc s)))\<rparr>),
                        head := snd (priqueue_offer (h1(nalloc s := (h1 (nalloc s))\<lparr>turn := (if sch s = RR then priqueue_size (head s) else turn (h1 (nalloc s)))\<rparr>)) (head s) (nalloc s))\<rparr>))"
    unfolding scheduler_new_job_def Let_def lk sum.case split_def h1_def s1_def ..
  have fin: ?thesis
    if "scheduler_new_job jn time rt pr s = Inr (r, s')"
      "nalloc s' = Suc (nalloc s)"
      "\<forall>a. a \<noteq> nalloc s \<longrightarrow> heap s' a =
        (if V = Some a then preempt time (heap s a)
         else if a \<in> set (elems (head s)) \<and> core_id (heap s a) \<noteq> - 1
              then recompute time (heap s a) else heap s a)"
      "case V of None \<Rightarrow> True
      | Some v \<Rightarrow> v \<in> set (elems (head s)) \<and> core_id (heap s v) \<noteq> - 1 \<and>
          (sch s = PSJF \<or> sch s = PPRI) \<and> r = core_id (heap s v) \<and> find_idle s = None"
      "heap s' (nalloc s) = (new_job_t jn time rt pr)
        \<lparr>wait_time := (if r = - 1 then - 1 else 0),
         response_time := (if r = - 1 then - 1 else 0),
         turn := (if sch s = RR then int (length (elems (head s))) else - 1),
         core_id := r\<rparr>"
      "core_arr s' = (if r = - 1 then core_arr s else (core_arr s)[nat r := 1])"
      "r = - 1 \<longleftrightarrow> find_idle s = None \<and> V = None"
      "\<forall>i. find_idle s = Some i \<longrightarrow> r = int i"
      "set (elems (head s')) = insert (nalloc s) (set (elems (head s)))"
      "remove1 (nalloc s) (elems (head s')) = elems (head s)"
    for r s' V
    apply (rule exI [of _ r])
    apply (rule exI [of _ s'])
    apply (rule exI [of _ V])
    apply (intro conjI)
    apply (rule that)+
    done
  show ?thesis
  proof (cases "find_idle s")
    case (Some i)
    show ?thesis
    proof (rule fin [of "int i" _ None])
      show "scheduler_new_job jn time rt pr s = Inr (int i, s1\<lparr>heap := h1(nalloc s := (h1 (nalloc s))\<lparr>core_id := int i, wait_time := 0, response_time := 0,
                            turn := (if sch s = RR then priqueue_size (head s) else turn (h1 (nalloc s)))\<rparr>),
                 head := snd (priqueue_offer (h1(nalloc s := (h1 (nalloc s))\<lparr>core_id := int i, wait_time := 0, response_time := 0,
                            turn := (if sch s = RR then priqueue_size (head s) else turn (h1 (nalloc s)))\<rparr>)) (head s) (nalloc s)),
                 core_arr := (core_arr s)[i := 1]\<rparr>)"
        unfolding unf Some option.case ..
    qed (use Some nn in \<open>simp_all add: s1_def h1n h1o offer_elems offer_remove1 priqueue_size_def new_job_t_def\<close>)
  next
    case None
    have busy: "\<forall>c<length (core_arr s). core_arr s ! c \<noteq> 0"
      using find_idle_None [OF None] len by auto
    show ?thesis
    proof (cases "sch s = PSJF \<or> sch s = PPRI")
      case False
      show ?thesis
      proof (rule fin [of "- 1" _ None])
        show "scheduler_new_job jn time rt pr s =
            Inr (- 1, s1\<lparr>heap := h1(nalloc s := (h1 (nalloc s))\<lparr>turn := (if sch s = RR then priqueue_size (head s) else turn (h1 (nalloc s)))\<rparr>),
                        head := snd (priqueue_offer (h1(nalloc s := (h1 (nalloc s))\<lparr>turn := (if sch s = RR then priqueue_size (head s) else turn (h1 (nalloc s)))\<rparr>)) (head s) (nalloc s))\<rparr>)"
          unfolding unf None option.case using False by simp
      qed (use None nn in \<open>simp_all add: s1_def h1n h1o offer_elems offer_remove1 priqueue_size_def new_job_t_def\<close>)
    next
      case True
      then have nrr: "sch s \<noteq> RR" by auto
      define q where "q = snd (priqueue_offer h1 (head s) (nalloc s))"
      have qs: "set (elems q) = insert (nalloc s) (set (elems (head s)))" by (simp add: q_def offer_elems)
      show ?thesis
      proof (cases "int (fst (priqueue_offer h1 (head s) (nalloc s))) < numOfCores s")
        case False
        show ?thesis
        proof (rule fin [of "- 1" _ None])
          show "scheduler_new_job jn time rt pr s =
              Inr (- 1, s1\<lparr>heap := h1, head := snd (priqueue_offer h1 (head s) (nalloc s))\<rparr>)"
            unfolding unf None option.case using False True by simp
        qed (use None nn nrr in \<open>simp_all add: s1_def h1n h1o offer_elems offer_remove1 new_job_t_def\<close>)
      next
        case lt: True
        from assignment_busy [OF A0 busy] len obtain b where b: "b \<in> set (elems (head s))"
          "core_id (heap s b) \<noteq> - 1" by auto
        have "find_victim h1 (elems q) \<noteq> None"
        proof
          assume "find_victim h1 (elems q) = None"
          moreover have "b \<noteq> nalloc s" using b nn by auto
          ultimately show False
            using find_victim_None [of h1 "elems q" b] b qs by (simp add: h1_def)
        qed
        then obtain v where v: "find_victim h1 (elems q) = Some v" by auto
        from find_victim_Some [OF v] have vq: "v \<in> set (elems q)" and vr: "core_id (h1 v) \<noteq> - 1" by auto
        have vn: "v \<noteq> nalloc s" using vr h1n by auto
        with vq qs have vE: "v \<in> set (elems (head s))" by auto
        have vc: "core_id (h1 v) = core_id (heap s v)" using vn by (simp add: h1_def)
        have cr: "0 \<le> core_id (heap s v)" "core_id (heap s v) < int (length (core_arr s))"
          using A0 vE vr vc unfolding assignment_ok_def by auto
        have cne: "core_id (heap s v) \<noteq> - 1" using cr by simp
        have pv: "preempt time (h1 v) = preempt time (heap s v)"
          using vn by (simp add: h1o)
        show ?thesis
        proof (rule fin [of "core_id (heap s v)" _ "Some v"])
          show "scheduler_new_job jn time rt pr s =
              Inr (core_id (heap s v),
                   s1\<lparr>heap := (h1(v := preempt time (heap s v)))
                          (nalloc s := ((h1(v := preempt time (heap s v))) (nalloc s))
                             \<lparr>core_id := core_id (heap s v), wait_time := 0, response_time := 0\<rparr>),
                      head := q,
                      core_arr := (core_arr s)[nat (core_id (heap s v)) := 1]\<rparr>)"
            unfolding unf None option.case q_def [symmetric] v
            using True lt cr by (simp add: vc pv)
        qed (use None nn nrr vn vE cne True in \<open>simp_all add: s1_def h1n h1o q_def offer_elems offer_remove1 new_job_t_def\<close>)
      qed
    qed
  qed
qed

lemma assignment_count:
  assumes A: "assignment_ok arr E cid"
  shows "card {c. c < length arr \<and> arr ! c \<noteq> 0} = card {a \<in> E. cid a \<noteq> - 1}"
proof -
  have A1: "\<And>c. c < length arr \<Longrightarrow> arr ! c = 0 \<or> arr ! c = 1"
    and A2: "\<And>a. a \<in> E \<Longrightarrow> cid a \<noteq> - 1 \<Longrightarrow> 0 \<le> cid a \<and> cid a < int (length arr) \<and> arr ! nat (cid a) = 1"
    and A3: "\<And>c. c < length arr \<Longrightarrow> arr ! c = 1 \<Longrightarrow> \<exists>a\<in>E. cid a = int c"
    and A4: "\<And>a b. a \<in> E \<Longrightarrow> b \<in> E \<Longrightarrow> cid a = cid b \<Longrightarrow> cid a = - 1 \<or> a = b"
    using A unfolding assignment_ok_def by blast+
  let ?A = "{a \<in> E. cid a \<noteq> - 1}" and ?B = "{c. c < length arr \<and> arr ! c \<noteq> 0}"
  let ?f = "\<lambda>a. nat (cid a)"
  have inj: "inj_on ?f ?A"
  proof (rule inj_onI)
    fix a b assume a: "a \<in> ?A" and b: "b \<in> ?A" and e: "nat (cid a) = nat (cid b)"
    from a A2 [of a] have "0 \<le> cid a" by simp
    moreover from b A2 [of b] have "0 \<le> cid b" by simp
    ultimately have "cid a = cid b" using e by simp
    with A4 [of a b] a b show "a = b" by simp
  qed
  have img: "?f ` ?A = ?B"
  proof (intro equalityI subsetI)
    fix c assume "c \<in> ?f ` ?A"
    then obtain a where a: "a \<in> E" "cid a \<noteq> - 1" "c = nat (cid a)" by auto
    from A2 [OF a(1,2)] have "nat (cid a) < length arr" "arr ! nat (cid a) \<noteq> 0" by auto
    with a(3) show "c \<in> ?B" by simp
  next
    fix c assume "c \<in> ?B"
    then have c: "c < length arr" "arr ! c \<noteq> 0" by auto
    with A1 [of c] have "arr ! c = 1" by simp
    from A3 [OF c(1) this] obtain a where a: "a \<in> E" "cid a = int c" by auto
    then have "a \<in> ?A" "?f a = c" by auto
    then show "c \<in> ?f ` ?A" by blast
  qed
  have "bij_betw ?f ?A ?B" unfolding bij_betw_def using inj img by simp
  then show ?thesis by (rule bij_betw_same_card [symmetric])
qed

lemma cores_ok_count:
  assumes C: "cores_ok s" and Q: "queue_ok s"
  shows "busy_cores s = running_jobs s" "running_jobs s = assigned_jobs s"
    "int (busy_cores s) \<le> numOfCores s"
proof -
  have d: "distinct (elems (head s))" and b: "\<forall>a \<in> set (elems (head s)). a < nalloc s"
    using Q by (auto simp: queue_ok_def)
  have A: "assignment_ok (core_arr s) (set (elems (head s))) (\<lambda>a. core_id (heap s a))"
    and nq: "\<forall>a<nalloc s. a \<notin> set (elems (head s)) \<longrightarrow> core_id (heap s a) = - 1"
    and len: "length (core_arr s) = nat (numOfCores s)" "0 < numOfCores s"
    using C by (auto simp: cores_ok_def)
  have r: "running_jobs s = card {a \<in> set (elems (head s)). core_id (heap s a) \<noteq> - 1}"
  proof -
    have "{a. core_id (heap s a) \<noteq> - 1} \<inter> set (elems (head s)) =
          {a \<in> set (elems (head s)). core_id (heap s a) \<noteq> - 1}" by blast
    then show ?thesis unfolding running_jobs_def using distinct_length_filter [OF d] by simp
  qed
  have "busy_cores s = card {c. c < length (core_arr s) \<and> core_arr s ! c \<noteq> 0}"
    unfolding busy_cores_def by (rule length_filter_conv_card)
  also have "\<dots> = card {a \<in> set (elems (head s)). core_id (heap s a) \<noteq> - 1}"
    by (rule assignment_count [OF A])
  finally show "busy_cores s = running_jobs s" using r by simp
  have "{a. core_id (heap s a) \<noteq> - 1} \<inter> set [0..<nalloc s] =
        {a \<in> set (elems (head s)). core_id (heap s a) \<noteq> - 1}"
    using b nq by auto
  moreover have "assigned_jobs s = card ({a. core_id (heap s a) \<noteq> - 1} \<inter> set [0..<nalloc s])"
    unfolding assigned_jobs_def by (rule distinct_length_filter) simp
  ultimately show "running_jobs s = assigned_jobs s" using r by simp
  have "busy_cores s \<le> length (core_arr s)" unfolding busy_cores_def by (rule length_filter_le)
  then show "int (busy_cores s) \<le> numOfCores s" using len by simp
qed

lemma reached_inv: "reached cores scheme t0 evs s \<Longrightarrow> sched_inv cores scheme (now t0 evs) s"
proof -
  assume r: "reached cores scheme t0 evs s"
  then have "0 < cores" "admissible t0 (scheduler_start_up cores scheme) evs"
    and e: "exec (scheduler_start_up cores scheme) evs = Inr s" by (auto simp: reached_def)
  from reach_inv [OF this(1,2)] e show ?thesis by simp
qed

lemma reachedI:
  assumes "0 < cores" "admissible t0 (scheduler_start_up cores scheme) evs"
  shows "reached cores scheme t0 evs (projr (exec (scheduler_start_up cores scheme) evs))"
proof -
  from reach_inv [OF assms] obtain s where "exec (scheduler_start_up cores scheme) evs = Inr s"
    by blast
  then show ?thesis using assms by (simp add: reached_def)
qed

lemma find_idle_lowest:
  assumes "i < nat (numOfCores s)" "core_arr s ! i = 0" "\<forall>k<i. core_arr s ! k \<noteq> 0"
  shows "find_idle s = Some i"
proof -
  have "\<exists>k<length [0..<nat (numOfCores s)]. core_arr s ! ([0..<nat (numOfCores s)] ! k) = 0 \<and>
      i = [0..<nat (numOfCores s)] ! k \<and>
      (\<forall>j<k. \<not> core_arr s ! ([0..<nat (numOfCores s)] ! j) = 0)"
  proof (intro exI [of _ i] conjI allI impI)
    show "i < length [0..<nat (numOfCores s)]" using assms(1) by simp
    show "core_arr s ! ([0..<nat (numOfCores s)] ! i) = 0" using assms(1,2) by simp
    show "i = [0..<nat (numOfCores s)] ! i" using assms(1) by simp
    fix j assume "j < i"
    then show "\<not> core_arr s ! ([0..<nat (numOfCores s)] ! j) = 0" using assms(1,3) by simp
  qed
  then show ?thesis unfolding find_idle_def by (rule find_Some_iff [THEN iffD2])
qed

lemma ids_nonneg:
  assumes "registry_ok s" "a < nalloc s"
  shows "0 \<le> job_id (heap s a)"
proof (cases "a = 0")
  case True
  with assms show ?thesis by (simp add: registry_ok_def)
next
  case False
  from assms(1) have inc: "\<And>x y. x < nalloc s \<Longrightarrow> y < nalloc s \<Longrightarrow> x < y \<Longrightarrow>
      job_id (heap s x) < job_id (heap s y)"
    and z: "0 < nalloc s \<Longrightarrow> job_id (heap s 0) = 0"
    unfolding registry_ok_def by blast+
  from False assms(2) have "0 < nalloc s" "0 < a" by auto
  with inc [of 0 a] z assms(2) show ?thesis by simp
qed

lemma remove1_of_two:
  assumes "distinct es" "length es = 2" "x \<in> set es" "y \<in> set es" "x \<noteq> y"
  shows "remove1 x es = [y]"
proof -
  from assms(2) obtain a b where es: "es = [a, b]"
    by (auto simp: numeral_2_eq_2 length_Suc_conv)
  with assms show ?thesis by auto
qed

lemma after_expiry_fields:
  "elems (head (after_expiry core cur time s)) = remove1 cur (elems (head s)) @ [cur]"
  "length (core_arr (after_expiry core cur time s)) = length (core_arr s)"
  "nalloc (after_expiry core cur time s) = nalloc s"
  "a \<noteq> cur \<Longrightarrow> core_id (heap (after_expiry core cur time s) a) = core_id (heap s a)"
  "job_id (heap (after_expiry core cur time s) a) = job_id (heap s a)"
  "arr_time (heap (after_expiry core cur time s) a) = arr_time (heap s a)"
  "response_time (heap (after_expiry core cur time s) a) = response_time (heap s a)"
  "core_id (heap (after_expiry core cur time s) cur) = - 1"
  by (simp_all add: after_expiry_def Let_def)

lemma step_total:
  assumes "reached cores scheme t0 evs s" "pre (now t0 evs) s e"
  shows "step s e = Inr (fst (projr (step s e)), snd (projr (step s e)))"
proof -
  from step_inv [OF reached_inv [OF assms(1)] assms(2)] obtain r s' where
    "step s e = Inr (r, s')" by blast
  then show ?thesis by simp
qed

lemma after_finish_fields:
  "elems (head (after_finish core a time s)) = remove1 a (elems (head s))"
  "core_arr (after_finish core a time s) = (core_arr s)[nat core := 0]"
  "nalloc (after_finish core a time s) = nalloc s"
  "x \<noteq> a \<Longrightarrow> core_id (heap (after_finish core a time s) x) = core_id (heap s x)"
  "core_id (heap (after_finish core a time s) a) = - 1"
  "job_id (heap (after_finish core a time s) x) = job_id (heap s x)"
  "arr_time (heap (after_finish core a time s) x) = arr_time (heap s x)"
  "duration (heap (after_finish core a time s) x) = duration (heap s x)"
  "response_time (heap (after_finish core a time s) x) = response_time (heap s x)"
  "wait_time (heap (after_finish core a time s) x) = wait_time (heap s x)"
  "start_wait (heap (after_finish core a time s) x) = start_wait (heap s x)"
  "turnover_time (heap (after_finish core a time s) a) = time - arr_time (heap s a)"
  by (simp_all add: after_finish_def Let_def)

lemma dispatch_effect:
  assumes "0 \<le> core" "core < int (length (core_arr S))"
  shows "\<exists>r s' W. dispatch_next core (Some core) time S = Inr (r, s') \<and>
     nalloc s' = nalloc S \<and>
     (\<forall>x. heap s' x = (if W = Some x then admit time core (heap S x) else heap S x)) \<and>
     (case W of None \<Rightarrow> True
      | Some w \<Rightarrow> w \<in> set (elems (head S)) \<and> core_id (heap S w) = - 1) \<and>
     core_arr s' = (case W of None \<Rightarrow> core_arr S | Some w \<Rightarrow> (core_arr S)[nat core := 1])"
proof (cases "find (\<lambda>a. core_id (heap S a) = - 1) (elems (head S))")
  case None
  then have "dispatch_next core (Some core) time S = Inr (- 1, S)"
    by (simp add: dispatch_next_eq)
  then show ?thesis
    apply (intro exI [of _ "- 1"] exI [of _ S] exI [of _ None])
    apply simp
    done
next
  case (Some w)
  from find_waiting [OF Some] have w: "w \<in> set (elems (head S))" "core_id (heap S w) = - 1" .
  have "dispatch_next core (Some core) time S =
      Inr (job_id (heap S w),
           S\<lparr>heap := (heap S)(w := admit time core (heap S w)),
             core_arr := (core_arr S)[nat core := 1]\<rparr>)"
    using Some assms by (simp add: dispatch_next_eq)
  then show ?thesis
    apply (intro exI [of _ "job_id (heap S w)"]
        exI [of _ "S\<lparr>heap := (heap S)(w := admit time core (heap S w)),
             core_arr := (core_arr S)[nat core := 1]\<rparr>"] exI [of _ "Some w"])
    using w apply simp
    done
qed

lemma job_finished_effect:
  assumes I: "sched_inv cores scheme t s" and P: "pre t s (JobFinished core jn time)"
    and a: "a \<in> set (elems (head s))" "job_id (heap s a) = jn"
  shows "\<exists>r s' W. scheduler_job_finished core jn time s = Inr (r, s') \<and>
     nalloc s' = nalloc s \<and>
     (\<forall>x. heap s' x = (if W = Some x then admit time core (heap (after_finish core a time s) x)
                       else heap (after_finish core a time s) x)) \<and>
     (case W of None \<Rightarrow> True
      | Some w \<Rightarrow> w \<in> set (elems (head s)) \<and> w \<noteq> a \<and> core_id (heap s w) = - 1) \<and>
     core_arr s' = (case W of None \<Rightarrow> (core_arr s)[nat core := 0]
                    | Some w \<Rightarrow> (core_arr s)[nat core := 1]) \<and>
     core_id (heap s a) = core \<and> 0 \<le> core \<and> core < int (length (core_arr s))"
proof -
  from I have R: "registry_ok s" and Q: "queue_ok s" by (auto simp: sched_inv_def)
  from P obtain b where b: "b \<in> set (elems (head s))" "job_id (heap s b) = jn"
    "core_id (heap s b) = core" and core: "0 \<le> core" and le: "t \<le> time" by auto
  have "b = a" using queue_ids_unique [OF R Q] a b by blast
  with b have ca: "core_id (heap s a) = core" by simp
  let ?S = "after_finish core a time s"
  note af = after_finish_inv [OF I le a(1) ca core]
  from af(1) have "cores_ok ?S" by (simp add: sched_inv_def)
  then have rng: "core < int (length (core_arr ?S))" using af(3) core by (simp add: cores_ok_def)
  have d: "distinct (elems (head s))" using Q by (simp add: queue_ok_def)
  from dispatch_effect [OF core rng, of time] obtain r s' W where
    res: "dispatch_next core (Some core) time ?S = Inr (r, s')"
    and n: "nalloc s' = nalloc ?S"
    and h: "\<forall>x. heap s' x = (if W = Some x then admit time core (heap ?S x) else heap ?S x)"
    and w: "case W of None \<Rightarrow> True
      | Some w \<Rightarrow> w \<in> set (elems (head ?S)) \<and> core_id (heap ?S w) = - 1"
    and c: "core_arr s' = (case W of None \<Rightarrow> core_arr ?S | Some w \<Rightarrow> (core_arr ?S)[nat core := 1])"
    by blast
  have w': "case W of None \<Rightarrow> True
      | Some w \<Rightarrow> w \<in> set (elems (head s)) \<and> w \<noteq> a \<and> core_id (heap s w) = - 1"
  proof (cases W)
    case None then show ?thesis by simp
  next
    case (Some x)
    with w have "x \<in> set (remove1 a (elems (head s)))" "core_id (heap ?S x) = - 1"
      by (simp_all add: after_finish_fields)
    then have "x \<in> set (elems (head s))" "x \<noteq> a" using d by auto
    moreover from this \<open>core_id (heap ?S x) = - 1\<close> have "core_id (heap s x) = - 1"
      by (simp add: after_finish_fields)
    ultimately show ?thesis using Some by simp
  qed
  have c': "core_arr s' = (case W of None \<Rightarrow> (core_arr s)[nat core := 0]
                    | Some w \<Rightarrow> (core_arr s)[nat core := 1])"
    using c by (cases W) (simp_all add: after_finish_fields)
  have rng': "core < int (length (core_arr s))" using rng by (simp add: after_finish_fields)
  have "scheduler_job_finished core jn time s = Inr (r, s')"
    using job_finished_eq [OF I a ca core] res by simp
  with n h w' c' ca core rng' show ?thesis
    apply (intro exI [of _ r] exI [of _ s'] exI [of _ W])
    apply (simp add: after_finish_fields)
    done
qed

lemma quantum_expired_effect:
  assumes I: "sched_inv cores scheme t s" and P: "pre t s (QuantumExpired core time)"
  shows "\<exists>r s' W cur. scheduler_quantum_expired core time s = Inr (r, s') \<and>
     nalloc s' = nalloc s \<and> cur \<in> set (elems (head s)) \<and> core_id (heap s cur) = core \<and>
     (\<forall>x. heap s' x = (if W = Some x then admit time core (heap (after_expiry core cur time s) x)
                       else heap (after_expiry core cur time s) x)) \<and>
     (case W of None \<Rightarrow> True
      | Some w \<Rightarrow> w \<in> set (elems (head s)) \<and> (w = cur \<or> core_id (heap s w) = - 1))"
proof -
  from I have R: "registry_ok s" and Q: "queue_ok s" by (auto simp: sched_inv_def)
  from P obtain cur where a: "cur \<in> set (elems (head s))" "core_id (heap s cur) = core"
    and core: "0 \<le> core" and le: "t \<le> time" and rr: "sch s = RR" by auto
  let ?S = "after_expiry core cur time s"
  note af = after_expiry_inv [OF I le a core]
  from af(1) have "cores_ok ?S" by (simp add: sched_inv_def)
  then have rng: "core < int (length (core_arr ?S))" using af(3) core by (simp add: cores_ok_def)
  from dispatch_effect [OF core rng, of time] obtain r s' W where
    res: "dispatch_next core (Some core) time ?S = Inr (r, s')"
    and n: "nalloc s' = nalloc ?S"
    and h: "\<forall>x. heap s' x = (if W = Some x then admit time core (heap ?S x) else heap ?S x)"
    and w: "case W of None \<Rightarrow> True
      | Some w \<Rightarrow> w \<in> set (elems (head ?S)) \<and> core_id (heap ?S w) = - 1"
    by blast
  have w': "case W of None \<Rightarrow> True
      | Some w \<Rightarrow> w \<in> set (elems (head s)) \<and> (w = cur \<or> core_id (heap s w) = - 1)"
  proof (cases W)
    case None then show ?thesis by simp
  next
    case (Some x)
    with w have m: "x \<in> set (remove1 cur (elems (head s)) @ [cur])" "core_id (heap ?S x) = - 1"
      by (simp_all add: after_expiry_fields)
    have "x \<in> set (elems (head s))"
    proof (cases "x = cur")
      case True with a show ?thesis by simp
    next
      case False
      with m(1) have "x \<in> set (remove1 cur (elems (head s)))" by simp
      then show ?thesis using set_remove1_subset [of cur "elems (head s)"] by blast
    qed
    moreover have "x = cur \<or> core_id (heap s x) = - 1"
      using m(2) by (cases "x = cur") (simp_all add: after_expiry_fields)
    ultimately show ?thesis using Some by simp
  qed
  have "scheduler_quantum_expired core time s = Inr (r, s')"
    using quantum_expired_eq [OF I a core rr] res by simp
  with n h w' a show ?thesis
    apply (intro exI [of _ r] exI [of _ s'] exI [of _ W] exI [of _ cur])
    apply (simp add: after_expiry_fields)
    done
qed

lemma running_job_in_queue:
  assumes C: "cores_ok s" and a: "a < nalloc s" "core_id (heap s a) \<noteq> - 1"
  shows "a \<in> set (elems (head s))" "0 \<le> core_id (heap s a)"
    "nat (core_id (heap s a)) < length (core_arr s)"
    "core_arr s ! nat (core_id (heap s a)) = 1"
proof -
  from C have nq: "\<forall>a<nalloc s. a \<notin> set (elems (head s)) \<longrightarrow> core_id (heap s a) = - 1"
    and A: "assignment_ok (core_arr s) (set (elems (head s))) (\<lambda>a. core_id (heap s a))"
    by (auto simp: cores_ok_def)
  from nq a show m: "a \<in> set (elems (head s))" by blast
  from A m a(2) have *: "0 \<le> core_id (heap s a) \<and> core_id (heap s a) < int (length (core_arr s)) \<and>
      core_arr s ! nat (core_id (heap s a)) = 1"
    unfolding assignment_ok_def by blast
  then show "0 \<le> core_id (heap s a)" "nat (core_id (heap s a)) < length (core_arr s)"
    "core_arr s ! nat (core_id (heap s a)) = 1" by auto
qed


lemma exec_append:
  "exec s (xs @ ys) = (case exec s xs of Inl x \<Rightarrow> Inl x | Inr s1 \<Rightarrow> exec s1 ys)"
proof (induction xs arbitrary: s)
  case Nil
  show ?case by simp
next
  case (Cons e xs)
  show ?case
  proof (cases "step s e")
    case (Inl x)
    then show ?thesis by simp
  next
    case (Inr p)
    obtain r s1 where "p = (r, s1)" by (cases p)
    with Inr Cons.IH [of s1] show ?thesis by simp
  qed
qed

lemma admissible_append:
  "admissible t s (xs @ ys) \<longleftrightarrow>
     admissible t s xs \<and>
     (case exec s xs of Inl x \<Rightarrow> True | Inr s1 \<Rightarrow> admissible (now t xs) s1 ys)"
proof (induction xs arbitrary: t s)
  case Nil
  show ?case by simp
next
  case (Cons e xs)
  show ?case
  proof (cases "step s e")
    case (Inl x)
    then show ?thesis by simp
  next
    case (Inr p)
    obtain r s1 where "p = (r, s1)" by (cases p)
    with Inr have st: "step s e = Inr (r, s1)" by simp
    show ?thesis unfolding append_Cons admissible.simps exec.simps now.simps st
      using Cons.IH [of "event_time e" s1] by simp
  qed
qed

lemma reached_step:
  assumes "reached cores scheme t0 evs s" and "pre (now t0 evs) s e"
    and "step s e = Inr (r, s')"
  shows "reached cores scheme t0 (evs @ [e]) s'"
  using assms by (simp add: reached_def exec_append admissible_append)

lemma step_response:
  assumes I: "sched_inv cores scheme t s" and P: "pre t s e" and res: "step s e = Inr (r, s')"
  shows "resp_of a s' =
       (if is_arrival e \<and> on_core a s \<and> \<not> on_core a s' \<and>
           remaining_time (heap s' a) = duration (heap s' a) then - 1
        else if resp_of a s = - 1 \<and> on_core a s' then event_time e - arr_time (heap s' a)
        else resp_of a s)"
    and "is_arrival e \<and> on_core a s \<and> \<not> on_core a s' \<Longrightarrow> scheme = PSJF \<or> scheme = PPRI"
    and "a < nalloc s \<Longrightarrow> a < nalloc s' \<and> arr_time (heap s' a) = arr_time (heap s a)"
proof -
  from I have T: "times_ok t s" and sc: "sch s = scheme" by (auto simp: sched_inv_def)
  have run: "response_time (heap s x) \<noteq> - 1" if "x < nalloc s" "core_id (heap s x) \<noteq> - 1" for x
    using T that unfolding times_ok_def by blast
  have "resp_of a s' =
       (if is_arrival e \<and> on_core a s \<and> \<not> on_core a s' \<and>
           remaining_time (heap s' a) = duration (heap s' a) then - 1
        else if resp_of a s = - 1 \<and> on_core a s' then event_time e - arr_time (heap s' a)
        else resp_of a s) \<and>
     (is_arrival e \<and> on_core a s \<and> \<not> on_core a s' \<longrightarrow> scheme = PSJF \<or> scheme = PPRI) \<and>
     (a < nalloc s \<longrightarrow> a < nalloc s' \<and> arr_time (heap s' a) = arr_time (heap s a))"
  proof (cases e)
    case (NewJob jn time rt pr)
    from new_job_effect [OF I P [unfolded NewJob]] obtain r0 s0 V where
      res0: "scheduler_new_job jn time rt pr s = Inr (r0, s0)"
      and n: "nalloc s0 = Suc (nalloc s)"
      and old: "\<forall>a. a \<noteq> nalloc s \<longrightarrow> heap s0 a =
          (if V = Some a then preempt time (heap s a)
           else if a \<in> set (elems (head s)) \<and> core_id (heap s a) \<noteq> - 1
                then recompute time (heap s a) else heap s a)"
      and vic: "case V of None \<Rightarrow> True
        | Some v \<Rightarrow> v \<in> set (elems (head s)) \<and> core_id (heap s v) \<noteq> - 1 \<and>
            (sch s = PSJF \<or> sch s = PPRI) \<and> r0 = core_id (heap s v) \<and> find_idle s = None"
      and new: "heap s0 (nalloc s) = (new_job_t jn time rt pr)
          \<lparr>wait_time := (if r0 = - 1 then - 1 else 0),
           response_time := (if r0 = - 1 then - 1 else 0),
           turn := (if sch s = RR then int (length (elems (head s))) else - 1),
           core_id := r0\<rparr>"
      by blast
    from res res0 have eq: "s0 = s'" unfolding NewJob by simp
    note n' = n [unfolded eq]
    consider (new) "a = nalloc s" | (old) "a < nalloc s" | (out) "nalloc s' \<le> a"
      using n' by linarith
    then show ?thesis
    proof cases
      case new
      have "response_time (heap s' a) = (if r0 = - 1 then - 1 else 0)"
        "core_id (heap s' a) = r0" "arr_time (heap s' a) = time"
        unfolding new eq [symmetric] \<open>heap s0 (nalloc s) = _\<close> by simp_all
      then show ?thesis unfolding NewJob resp_of_def on_core_def n' using new
        by (cases "r0 = - 1") simp_all
    next
      case out
      then show ?thesis unfolding NewJob resp_of_def on_core_def using n' by simp
    next
      case an: old
      then have ne: "a \<noteq> nalloc s" by simp
      from an n' have an': "a < nalloc s'" by simp
      from old ne eq have ha: "heap s' a =
          (if V = Some a then preempt time (heap s a)
           else if a \<in> set (elems (head s)) \<and> core_id (heap s a) \<noteq> - 1
                then recompute time (heap s a) else heap s a)" by blast
      show ?thesis
      proof (cases "V = Some a")
        case vf: False
        with ha have f: "response_time (heap s' a) = response_time (heap s a)"
          "core_id (heap s' a) = core_id (heap s a)" "arr_time (heap s' a) = arr_time (heap s a)"
          by simp_all
        show ?thesis unfolding NewJob resp_of_def on_core_def f using an an' run [OF an]
          by auto
      next
        case True
        with ha have pa: "heap s' a = preempt time (heap s a)" by simp
        from vic True sc have pol: "scheme = PSJF \<or> scheme = PPRI"
          and rn: "core_id (heap s a) \<noteq> - 1" by simp_all
        have f: "response_time (heap s' a) =
            (if time - wait_time (heap s a) - arr_time (heap s a) = 0 then - 1
             else response_time (heap s a))"
          "core_id (heap s' a) = - 1" "arr_time (heap s' a) = arr_time (heap s a)"
          "remaining_time (heap s' a) =
             duration (heap s a) - (time - wait_time (heap s a) - arr_time (heap s a))"
          "duration (heap s' a) = duration (heap s a)"
          unfolding pa by simp_all
        show ?thesis unfolding NewJob resp_of_def on_core_def f using an an' rn pol
          by simp
      qed
    qed
  next
    case (JobFinished core jn time)
    from P [unfolded JobFinished] obtain b where b: "b \<in> set (elems (head s))"
      "job_id (heap s b) = jn" by auto
    from job_finished_effect [OF I P [unfolded JobFinished] b] obtain r0 s0 W where
      res0: "scheduler_job_finished core jn time s = Inr (r0, s0)"
      and n: "nalloc s0 = nalloc s"
      and h: "\<forall>x. heap s0 x = (if W = Some x then admit time core (heap (after_finish core b time s) x)
                         else heap (after_finish core b time s) x)"
      and core: "0 \<le> core"
      by blast
    from res res0 have eq: "s0 = s'" unfolding JobFinished by simp
    note n' = n [unfolded eq]
    let ?j = "heap (after_finish core b time s) a"
    have j: "response_time ?j = response_time (heap s a)" "arr_time ?j = arr_time (heap s a)"
      "core_id ?j = (if a = b then - 1 else core_id (heap s a))"
      by (simp_all add: after_finish_fields)
    show ?thesis
    proof (cases "a < nalloc s")
      case False
      then show ?thesis unfolding JobFinished resp_of_def on_core_def n' by simp
    next
      case an: True
      show ?thesis
      proof (cases "W = Some a")
        case False
        with h eq have "heap s' a = ?j" by simp
        then have f: "response_time (heap s' a) = response_time (heap s a)"
          "arr_time (heap s' a) = arr_time (heap s a)"
          "core_id (heap s' a) = (if a = b then - 1 else core_id (heap s a))"
          using j by simp_all
        show ?thesis unfolding JobFinished resp_of_def on_core_def n' f using an run [OF an]
          by auto
      next
        case True
        with h eq have "heap s' a = admit time core ?j" by simp
        then have f: "response_time (heap s' a) =
            (if response_time (heap s a) = - 1 then time - arr_time (heap s a)
             else response_time (heap s a))"
          "arr_time (heap s' a) = arr_time (heap s a)" "core_id (heap s' a) = core"
          using j by simp_all
        show ?thesis unfolding JobFinished resp_of_def on_core_def n' f using an core
          by simp
      qed
    qed
  next
    case (QuantumExpired core time)
    from P [unfolded QuantumExpired] have core: "0 \<le> core" by auto
    from quantum_expired_effect [OF I P [unfolded QuantumExpired]] obtain r0 s0 W cur where
      res0: "scheduler_quantum_expired core time s = Inr (r0, s0)"
      and n: "nalloc s0 = nalloc s"
      and h: "\<forall>x. heap s0 x = (if W = Some x then admit time core (heap (after_expiry core cur time s) x)
                         else heap (after_expiry core cur time s) x)"
      by blast
    from res res0 have eq: "s0 = s'" unfolding QuantumExpired by simp
    note n' = n [unfolded eq]
    let ?j = "heap (after_expiry core cur time s) a"
    have j: "response_time ?j = response_time (heap s a)" "arr_time ?j = arr_time (heap s a)"
      "core_id ?j = (if a = cur then - 1 else core_id (heap s a))"
      by (simp_all add: after_expiry_fields)
    show ?thesis
    proof (cases "a < nalloc s")
      case False
      then show ?thesis unfolding QuantumExpired resp_of_def on_core_def n' by simp
    next
      case an: True
      show ?thesis
      proof (cases "W = Some a")
        case False
        with h eq have "heap s' a = ?j" by simp
        then have f: "response_time (heap s' a) = response_time (heap s a)"
          "arr_time (heap s' a) = arr_time (heap s a)"
          "core_id (heap s' a) = (if a = cur then - 1 else core_id (heap s a))"
          using j by simp_all
        show ?thesis unfolding QuantumExpired resp_of_def on_core_def n' f using an run [OF an]
          by auto
      next
        case True
        with h eq have "heap s' a = admit time core ?j" by simp
        then have f: "response_time (heap s' a) =
            (if response_time (heap s a) = - 1 then time - arr_time (heap s a)
             else response_time (heap s a))"
          "arr_time (heap s' a) = arr_time (heap s a)" "core_id (heap s' a) = core"
          using j by simp_all
        show ?thesis unfolding QuantumExpired resp_of_def on_core_def n' f using an core
          by simp
      qed
    qed
  qed
  then show "resp_of a s' =
       (if is_arrival e \<and> on_core a s \<and> \<not> on_core a s' \<and>
           remaining_time (heap s' a) = duration (heap s' a) then - 1
        else if resp_of a s = - 1 \<and> on_core a s' then event_time e - arr_time (heap s' a)
        else resp_of a s)"
    and "is_arrival e \<and> on_core a s \<and> \<not> on_core a s' \<Longrightarrow> scheme = PSJF \<or> scheme = PPRI"
    and "a < nalloc s \<Longrightarrow> a < nalloc s' \<and> arr_time (heap s' a) = arr_time (heap s a)"
    by blast+
qed

lemma run_response:
  assumes NP: "scheme \<noteq> PSJF" "scheme \<noteq> PPRI"
  shows "sched_inv cores scheme t s \<Longrightarrow> admissible t s evs \<Longrightarrow> exec s evs = Inr s' \<Longrightarrow>
     (a < nalloc s \<longrightarrow> a < nalloc s' \<and> arr_time (heap s' a) = arr_time (heap s a)) \<and>
     (resp_of a s \<noteq> - 1 \<longrightarrow> resp_of a s' = resp_of a s \<and> assignments a s evs = 0) \<and>
     (resp_of a s = - 1 \<longrightarrow>
        assignments a s evs = (case first_dispatch a s evs of None \<Rightarrow> 0 | Some d \<Rightarrow> 1) \<and>
        resp_of a s' =
          (case first_dispatch a s evs of None \<Rightarrow> - 1 | Some d \<Rightarrow> d - arr_time (heap s' a)) \<and>
        (case first_dispatch a s evs of None \<Rightarrow> True | Some d \<Rightarrow> resp_of a s' \<noteq> - 1))"
proof (induction evs arbitrary: t s)
  case Nil
  then show ?case by simp
next
  case (Cons e es)
  then have p: "pre t s e" by simp
  from step_inv [OF Cons.prems(1) p] obtain r s1 where
    st: "step s e = Inr (r, s1)" and I1: "sched_inv cores scheme (event_time e) s1" by blast
  from Cons.prems(2) st have A1: "admissible (event_time e) s1 es" by simp
  from Cons.prems(3) st have E1: "exec s1 es = Inr s'" by simp
  note IH = Cons.IH [OF I1 A1 E1]
  from IH have ih_arr: "a < nalloc s1 \<Longrightarrow> a < nalloc s' \<and> arr_time (heap s' a) = arr_time (heap s1 a)"
    and ih_set: "resp_of a s1 \<noteq> - 1 \<Longrightarrow> resp_of a s' = resp_of a s1 \<and> assignments a s1 es = 0"
    and ih_unset: "resp_of a s1 = - 1 \<Longrightarrow>
        assignments a s1 es = (case first_dispatch a s1 es of None \<Rightarrow> 0 | Some d \<Rightarrow> 1) \<and>
        resp_of a s' =
          (case first_dispatch a s1 es of None \<Rightarrow> - 1 | Some d \<Rightarrow> d - arr_time (heap s' a)) \<and>
        (case first_dispatch a s1 es of None \<Rightarrow> True | Some d \<Rightarrow> resp_of a s' \<noteq> - 1)"
    by blast+
  note sr = step_response [OF Cons.prems(1) p st, of a]
  from sr(2) NP have nop: "\<not> (is_arrival e \<and> on_core a s \<and> \<not> on_core a s1)" by blast
  from sr(1) nop have F: "resp_of a s1 =
      (if resp_of a s = - 1 \<and> on_core a s1 then event_time e - arr_time (heap s1 a)
       else resp_of a s)" by auto
  from I1 have T1: "times_ok (event_time e) s1" by (simp add: sched_inv_def)
  have oc: "resp_of a s1 \<noteq> - 1" "a < nalloc s1" if "on_core a s1"
    using T1 that unfolding times_ok_def on_core_def resp_of_def by auto
  have as: "assignments a s (e # es) =
      (if resp_of a s1 \<noteq> - 1 \<and> resp_of a s1 \<noteq> resp_of a s then 1 else 0) + assignments a s1 es"
    using st by simp
  have fd: "first_dispatch a s (e # es) =
      (if on_core a s1 then Some (event_time e) else first_dispatch a s1 es)"
    using st by simp
  have 1: "a < nalloc s \<longrightarrow> a < nalloc s' \<and> arr_time (heap s' a) = arr_time (heap s a)"
    using sr(3) ih_arr by auto
  have 2: "resp_of a s \<noteq> - 1 \<longrightarrow> resp_of a s' = resp_of a s \<and> assignments a s (e # es) = 0"
  proof
    assume n: "resp_of a s \<noteq> - 1"
    with F have e1: "resp_of a s1 = resp_of a s" by simp
    with n ih_set have "resp_of a s' = resp_of a s1" "assignments a s1 es = 0" by simp_all
    with e1 show "resp_of a s' = resp_of a s \<and> assignments a s (e # es) = 0"
      unfolding as by simp
  qed
  have 3: "resp_of a s = - 1 \<longrightarrow>
        assignments a s (e # es) =
          (case first_dispatch a s (e # es) of None \<Rightarrow> 0 | Some d \<Rightarrow> 1) \<and>
        resp_of a s' =
          (case first_dispatch a s (e # es) of None \<Rightarrow> - 1
           | Some d \<Rightarrow> d - arr_time (heap s' a)) \<and>
        (case first_dispatch a s (e # es) of None \<Rightarrow> True | Some d \<Rightarrow> resp_of a s' \<noteq> - 1)"
  proof
    assume u: "resp_of a s = - 1"
    show "assignments a s (e # es) =
          (case first_dispatch a s (e # es) of None \<Rightarrow> 0 | Some d \<Rightarrow> 1) \<and>
        resp_of a s' =
          (case first_dispatch a s (e # es) of None \<Rightarrow> - 1
           | Some d \<Rightarrow> d - arr_time (heap s' a)) \<and>
        (case first_dispatch a s (e # es) of None \<Rightarrow> True | Some d \<Rightarrow> resp_of a s' \<noteq> - 1)"
    proof (cases "on_core a s1")
      case True
      note o = oc [OF True]
      from F u True have v: "resp_of a s1 = event_time e - arr_time (heap s1 a)" by simp
      from ih_set [OF o(1)] have k: "resp_of a s' = resp_of a s1" "assignments a s1 es = 0"
        by simp_all
      from ih_arr [OF o(2)] have ar: "arr_time (heap s' a) = arr_time (heap s1 a)" by simp
      have "assignments a s (e # es) = 1" unfolding as k using o(1) u by simp
      moreover have "resp_of a s' = event_time e - arr_time (heap s' a)"
        unfolding k ar by (rule v)
      moreover have "resp_of a s' \<noteq> - 1" unfolding k by (rule o(1))
      ultimately show ?thesis unfolding fd using True by simp
    next
      case False
      with F u have v: "resp_of a s1 = - 1" by simp
      have "assignments a s (e # es) = assignments a s1 es" unfolding as using v by simp
      with ih_unset [OF v] show ?thesis unfolding fd using False by simp
    qed
  qed
  from 1 2 3 show ?case by blast
qed

section \<open>The comparison function of SJF\<close>

text \<open>
  C3 says that under SJF a job \<open>a\<close> precedes a job \<open>b\<close> exactly when the duration of
  \<open>a\<close> is smaller, or the durations are equal and the number of \<open>a\<close> is smaller. On
  one core, job 0 arrives at time 0 with duration 10 and job 1 at time 8 with duration 5:
  the arrival of job 1 sets the remaining time of job 0 to 2, and job 0, the longer job,
  precedes job 1.
\<close>

theorem sjf_order_is_not_by_duration:
  "map_option duration (job_after 1 SJF [NewJob 0 0 10 0, NewJob 1 8 5 0] 0) = Some 10 \<and>
   map_option duration (job_after 1 SJF [NewJob 0 0 10 0, NewJob 1 8 5 0] 1) = Some 5 \<and>
   precedes (scheduler_start_up 1 SJF)
     (the (job_after 1 SJF [NewJob 0 0 10 0, NewJob 1 8 5 0] 0))
     (the (job_after 1 SJF [NewJob 0 0 10 0, NewJob 1 8 5 0] 1))"
  by code_simp

text \<open>
  C3, as amended. Under SJF, \<open>scheduler_start_up\<close> installs \<open>compare2\<close>, the function
  it installs under PSJF: a job \<open>a\<close> precedes a job \<open>b\<close> exactly when the remaining time
  of \<open>a\<close> is smaller, or the remaining times are equal and the number of \<open>a\<close> is smaller.
\<close>

theorem sjf_orders_by_remaining_time:
  "precedes (scheduler_start_up cores SJF) a b \<longleftrightarrow>
     remaining_time a < remaining_time b \<or>
     (remaining_time a = remaining_time b \<and> job_id a < job_id b)"
  by (auto simp: precedes_def scheduler_start_up_def priqueue_init_def compare2_def)

theorem sjf_orders_by_remaining_time_witness:
  "precedes (scheduler_start_up 2 SJF) (new_job_t 0 0 3 0) (new_job_t 1 1 4 0) \<and>
   \<not> precedes (scheduler_start_up 2 SJF) (new_job_t 1 1 4 0) (new_job_t 0 0 3 0)"
  using sjf_orders_by_remaining_time [of 2 "new_job_t 0 0 3 0" "new_job_t 1 1 4 0"]
    sjf_orders_by_remaining_time [of 2 "new_job_t 1 1 4 0" "new_job_t 0 0 3 0"]
  by (simp add: new_job_t_def)

section \<open>The statistics of a run without jobs\<close>

text \<open>
  C1 says that with no job submitted the three averages divide by nothing that is zero.
  After start-up \<open>totalJobs\<close> is 0, and the average waiting time is the quotient of 0 by
  \<open>totalJobs\<close>.
\<close>

theorem average_of_no_job_divides_by_zero:
  "totalJobs (scheduler_start_up 1 FCFS) = 0 \<and>
   scheduler_average_waiting_time (scheduler_start_up 1 FCFS) =
     Inr (float_div 0 (totalJobs (scheduler_start_up 1 FCFS)))"
  by (simp add: scheduler_start_up_def scheduler_average_waiting_time_def total_of_def)

text \<open>
  C1, as amended. With no job submitted, each of the three averages is the result of the
  division of 0 by 0, which no test guards; the three results are the same, the value that
  is not a number.
\<close>

theorem averages_of_no_job:
  "scheduler_average_waiting_time (scheduler_start_up cores scheme) = Inr (float_div 0 0) \<and>
   scheduler_average_turnaround_time (scheduler_start_up cores scheme) = Inr (float_div 0 0) \<and>
   scheduler_average_response_time (scheduler_start_up cores scheme) = Inr (float_div 0 0) \<and>
   float_div 0 0 = NaN"
  by (simp add: scheduler_start_up_def scheduler_average_waiting_time_def
      scheduler_average_turnaround_time_def scheduler_average_response_time_def
      total_of_def float_div_def)

theorem averages_of_no_job_witness:
  "scheduler_average_waiting_time (scheduler_start_up 4 RR) = Inr NaN \<and>
   scheduler_average_turnaround_time (scheduler_start_up 4 RR) = Inr NaN \<and>
   scheduler_average_response_time (scheduler_start_up 4 RR) = Inr NaN"
  using averages_of_no_job [of 4 RR] by simp

section \<open>Busy cores and running jobs\<close>

text \<open>
  C4. After start-up and after every call of a run made under the conditions of the
  handlers, the run has not failed, the number of cores marked busy is the number of jobs
  of the queue that are on a core, which is the number of jobs of the job list that are on
  a core, and it is at most the number of cores.
\<close>

theorem busy_cores_are_running_jobs:
  assumes "0 < cores" and "admissible t0 (scheduler_start_up cores scheme) evs"
  shows "\<exists>s. exec (scheduler_start_up cores scheme) evs = Inr s \<and>
           busy_cores s = running_jobs s \<and> running_jobs s = assigned_jobs s \<and>
           int (busy_cores s) \<le> numOfCores s \<and> numOfCores s = cores"
proof -
  from reach_inv [OF assms] obtain s where
    s: "exec (scheduler_start_up cores scheme) evs = Inr s"
    and I: "sched_inv cores scheme (now t0 evs) s" by blast
  from I have C: "cores_ok s" and Q: "queue_ok s" and n: "numOfCores s = cores"
    by (auto simp: sched_inv_def)
  from cores_ok_count [OF C Q] s n show ?thesis by blast
qed

theorem busy_cores_are_running_jobs_witness:
  "(0::int) < 2 \<and>
   admissible 0 (scheduler_start_up 2 PSJF)
     [NewJob 0 0 8 0, NewJob 1 1 4 0, NewJob 2 2 2 0, JobFinished 0 2 4] \<and>
   (\<exists>s. exec (scheduler_start_up 2 PSJF)
           [NewJob 0 0 8 0, NewJob 1 1 4 0, NewJob 2 2 2 0, JobFinished 0 2 4] = Inr s \<and>
        busy_cores s = running_jobs s \<and> running_jobs s = assigned_jobs s \<and>
        int (busy_cores s) \<le> numOfCores s \<and> numOfCores s = 2)"
proof -
  have c: "(0::int) < 2" by simp
  have a: "admissible 0 (scheduler_start_up 2 PSJF)
     [NewJob 0 0 8 0, NewJob 1 1 4 0, NewJob 2 2 2 0, JobFinished 0 2 4]" by code_simp
  from c a busy_cores_are_running_jobs [OF c a] show ?thesis by (intro conjI)
qed

section \<open>The turns of round robin\<close>

text \<open>
  C10. Under round robin, after start-up and after every call of a run made under the
  conditions of the handlers, the turns of the jobs of the queue are the ranks 0, 1, ... of
  the queue, so they are pairwise distinct, and on the jobs of the queue the comparison
  function is a strict total order: it is the order of the turns, no job precedes itself,
  the relation is transitive, and of two different jobs one precedes the other.
\<close>

theorem round_robin_turns_are_distinct:
  assumes "0 < cores" and "admissible t0 (scheduler_start_up cores RR) evs"
  shows "\<exists>s. exec (scheduler_start_up cores RR) evs = Inr s \<and>
     map (\<lambda>a. turn (heap s a)) (elems (head s)) = map int [0..<length (elems (head s))] \<and>
     distinct (map (\<lambda>a. turn (heap s a)) (elems (head s))) \<and>
     (\<forall>a \<in> set (elems (head s)). \<not> precedes s (heap s a) (heap s a)) \<and>
     (\<forall>a \<in> set (elems (head s)). \<forall>b \<in> set (elems (head s)). \<forall>c \<in> set (elems (head s)).
        precedes s (heap s a) (heap s b) \<longrightarrow> precedes s (heap s b) (heap s c) \<longrightarrow>
        precedes s (heap s a) (heap s c)) \<and>
     (\<forall>a \<in> set (elems (head s)). \<forall>b \<in> set (elems (head s)).
        a \<noteq> b \<longrightarrow> precedes s (heap s a) (heap s b) \<or> precedes s (heap s b) (heap s a))"
proof -
  from reach_inv [OF assms] obtain s where
    s: "exec (scheduler_start_up cores RR) evs = Inr s"
    and I: "sched_inv cores RR (now t0 evs) s" by blast
  from I have Q: "queue_ok s" and RRI: "rr_ok s" and sc: "sch s = RR"
    by (auto simp: sched_inv_def)
  have m: "map (\<lambda>a. turn (heap s a)) (elems (head s)) = map int [0..<length (elems (head s))]"
    using RRI sc by (simp add: rr_ok_def)
  have "distinct (map int [0..<length (elems (head s))])"
    by (simp add: distinct_map)
  then have dm: "distinct (map (\<lambda>a. turn (heap s a)) (elems (head s)))" unfolding m .
  have pr: "\<And>x y. precedes s x y \<longleftrightarrow> turn x < turn y"
    using Q sc by (simp add: precedes_def queue_ok_def compare4_def)
  have inj: "inj_on (\<lambda>a. turn (heap s a)) (set (elems (head s)))"
    using dm by (simp add: distinct_map)
  have tot: "\<forall>a \<in> set (elems (head s)). \<forall>b \<in> set (elems (head s)).
        a \<noteq> b \<longrightarrow> precedes s (heap s a) (heap s b) \<or> precedes s (heap s b) (heap s a)"
  proof (intro ballI impI)
    fix a b assume ab: "a \<in> set (elems (head s))" "b \<in> set (elems (head s))" "a \<noteq> b"
    with inj have "turn (heap s a) \<noteq> turn (heap s b)" by (auto dest: inj_onD)
    then show "precedes s (heap s a) (heap s b) \<or> precedes s (heap s b) (heap s a)"
      unfolding pr by linarith
  qed
  have irr: "\<forall>a \<in> set (elems (head s)). \<not> precedes s (heap s a) (heap s a)"
    unfolding pr by simp
  have tr: "\<forall>a \<in> set (elems (head s)). \<forall>b \<in> set (elems (head s)). \<forall>c \<in> set (elems (head s)).
        precedes s (heap s a) (heap s b) \<longrightarrow> precedes s (heap s b) (heap s c) \<longrightarrow>
        precedes s (heap s a) (heap s c)"
    unfolding pr by auto
  from s m dm irr tr tot show ?thesis by blast
qed

theorem round_robin_turns_are_distinct_witness:
  "(0::int) < 1 \<and>
   admissible 0 (scheduler_start_up 1 RR)
     [NewJob 0 0 10 0, NewJob 1 1 5 0, QuantumExpired 0 2, NewJob 2 3 5 0, QuantumExpired 0 4,
      JobFinished 0 0 6] \<and>
   (\<exists>s. exec (scheduler_start_up 1 RR)
     [NewJob 0 0 10 0, NewJob 1 1 5 0, QuantumExpired 0 2, NewJob 2 3 5 0, QuantumExpired 0 4,
      JobFinished 0 0 6] = Inr s \<and>
      distinct (map (\<lambda>a. turn (heap s a)) (elems (head s))))"
proof -
  have c: "(0::int) < 1" by simp
  have a: "admissible 0 (scheduler_start_up 1 RR)
     [NewJob 0 0 10 0, NewJob 1 1 5 0, QuantumExpired 0 2, NewJob 2 3 5 0, QuantumExpired 0 4,
      JobFinished 0 0 6]" by code_simp
  from round_robin_turns_are_distinct [OF c a] have
    "\<exists>s. exec (scheduler_start_up 1 RR)
     [NewJob 0 0 10 0, NewJob 1 1 5 0, QuantumExpired 0 2, NewJob 2 3 5 0, QuantumExpired 0 4,
      JobFinished 0 0 6] = Inr s \<and>
      distinct (map (\<lambda>a. turn (heap s a)) (elems (head s)))" by blast
  with c a show ?thesis by (intro conjI)
qed

section \<open>An arrival with an idle core\<close>

text \<open>
  C8. In a state reached by a run made under the conditions of the handlers, when core
  \<open>i\<close> is the idle core of lowest index, the arrival of a job returns \<open>i\<close>; the new job,
  stored at the address \<open>nalloc s\<close>, has waiting time 0, response time 0 and core \<open>i\<close>,
  and under round robin its turn is the size the queue had; the new job is inserted into
  the queue, whose other jobs keep their order; the entry of core \<open>i\<close> is set to 1.
\<close>

theorem new_job_takes_lowest_idle_core:
  assumes "reached cores scheme t0 evs s"
    and "pre (now t0 evs) s (NewJob jn time rt pr)"
    and "i < nat (numOfCores s)" and "core_arr s ! i = 0" and "\<forall>k<i. core_arr s ! k \<noteq> 0"
  shows "\<exists>s'. scheduler_new_job jn time rt pr s = Inr (int i, s') \<and>
     job_id (heap s' (nalloc s)) = jn \<and>
     wait_time (heap s' (nalloc s)) = 0 \<and> response_time (heap s' (nalloc s)) = 0 \<and>
     core_id (heap s' (nalloc s)) = int i \<and>
     (sch s = RR \<longrightarrow> turn (heap s' (nalloc s)) = int (length (elems (head s)))) \<and>
     nalloc s \<in> set (elems (head s')) \<and>
     remove1 (nalloc s) (elems (head s')) = elems (head s) \<and>
     core_arr s' = (core_arr s)[i := 1] \<and> core_arr s' ! i = 1"
proof -
  note I = reached_inv [OF assms(1)]
  have fi: "find_idle s = Some i" using assms(3,4,5) by (rule find_idle_lowest)
  from I have C: "cores_ok s" by (simp add: sched_inv_def)
  then have il: "i < length (core_arr s)" using assms(3) by (simp add: cores_ok_def)
  from new_job_effect [OF I assms(2)] obtain r s' V where
    res: "scheduler_new_job jn time rt pr s = Inr (r, s')"
    and hn: "heap s' (nalloc s) = (new_job_t jn time rt pr)
        \<lparr>wait_time := (if r = - 1 then - 1 else 0),
         response_time := (if r = - 1 then - 1 else 0),
         turn := (if sch s = RR then int (length (elems (head s))) else - 1),
         core_id := r\<rparr>"
    and ca: "core_arr s' = (if r = - 1 then core_arr s else (core_arr s)[nat r := 1])"
    and ri: "\<forall>i. find_idle s = Some i \<longrightarrow> r = int i"
    and st: "set (elems (head s')) = insert (nalloc s) (set (elems (head s)))"
    and rm: "remove1 (nalloc s) (elems (head s')) = elems (head s)"
    by blast
  from ri fi have r: "r = int i" by simp
  then have rn: "r \<noteq> - 1" by simp
  have "core_arr s' = (core_arr s)[i := 1]" using ca r by simp
  moreover from this il have "core_arr s' ! i = 1" by simp
  moreover have "nalloc s \<in> set (elems (head s'))" using st by simp
  ultimately show ?thesis using res r rm by (simp add: hn)
qed

theorem new_job_takes_lowest_idle_core_witness:
  "let evs = [NewJob 0 0 5 0, NewJob 1 1 3 0, JobFinished 0 0 2];
       s = projr (exec (scheduler_start_up 2 RR) evs)
   in reached 2 RR 0 evs s \<and> pre (now 0 evs) s (NewJob 2 3 4 0) \<and>
      0 < nat (numOfCores s) \<and> core_arr s ! 0 = 0 \<and>
      (\<exists>s'. scheduler_new_job 2 3 4 0 s = Inr (int 0, s') \<and>
         job_id (heap s' (nalloc s)) = 2 \<and>
         wait_time (heap s' (nalloc s)) = 0 \<and> response_time (heap s' (nalloc s)) = 0 \<and>
         core_id (heap s' (nalloc s)) = int 0 \<and>
         (sch s = RR \<longrightarrow> turn (heap s' (nalloc s)) = int (length (elems (head s)))) \<and>
         nalloc s \<in> set (elems (head s')) \<and>
         remove1 (nalloc s) (elems (head s')) = elems (head s) \<and>
         core_arr s' = (core_arr s)[0 := 1] \<and> core_arr s' ! 0 = 1)"
proof -
  let ?evs = "[NewJob 0 0 5 0, NewJob 1 1 3 0, JobFinished 0 0 2]"
  let ?s = "projr (exec (scheduler_start_up 2 RR) ?evs)"
  have a: "admissible 0 (scheduler_start_up 2 RR) ?evs" by code_simp
  have r: "reached 2 RR 0 ?evs ?s" by (rule reachedI [OF _ a]) simp
  have p: "pre (now 0 ?evs) ?s (NewJob 2 3 4 0)" by code_simp
  have i1: "0 < nat (numOfCores ?s)" by code_simp
  have i2: "core_arr ?s ! 0 = 0" by code_simp
  have i3: "\<forall>k<(0::nat). core_arr ?s ! k \<noteq> 0" by simp
  show ?thesis unfolding Let_def
    using r p i1 i2 new_job_takes_lowest_idle_core [OF r p i1 i2 i3] by (intro conjI)
qed

section \<open>The expiry of a quantum with a ready job\<close>

text \<open>
  C9. Under round robin, in a state reached by a run made under the conditions of the
  handlers in which the queue holds exactly two jobs, the one on the core and a job \<open>y\<close>
  that is on no core, the expiry of the quantum of the core returns the number of \<open>y\<close>,
  which is not -1, and puts \<open>y\<close> on the core. (The number of cores is any; the claim is the
  case of one core.)
\<close>

theorem quantum_expired_returns_ready_job:
  assumes "reached cores RR t0 evs s"
    and "pre (now t0 evs) s (QuantumExpired core time)"
    and "length (elems (head s)) = 2"
    and "y \<in> set (elems (head s))" and "core_id (heap s y) = - 1"
  shows "\<exists>s'. scheduler_quantum_expired core time s = Inr (job_id (heap s y), s') \<and>
           job_id (heap s y) \<noteq> - 1 \<and> core_id (heap s' y) = core"
proof -
  note I = reached_inv [OF assms(1)]
  from I have R: "registry_ok s" and Q: "queue_ok s" by (auto simp: sched_inv_def)
  from assms(2) obtain x where x: "x \<in> set (elems (head s))" "core_id (heap s x) = core"
    and core: "0 \<le> core" and le: "now t0 evs \<le> time" and rr: "sch s = RR" by auto
  have xy: "x \<noteq> y" using x(2) core assms(5) by auto
  have d: "distinct (elems (head s))" and yn: "y < nalloc s"
    using Q assms(4) by (auto simp: queue_ok_def)
  have rm: "remove1 x (elems (head s)) = [y]"
    using d assms(3) x(1) assms(4) xy by (rule remove1_of_two)
  let ?S = "after_expiry core x time s"
  note af = after_expiry_inv [OF I le x core]
  have el: "elems (head ?S) = [y, x]" by (simp add: after_expiry_fields rm)
  have cy: "core_id (heap ?S y) = - 1" using xy assms(5) by (simp add: after_expiry_fields)
  have fw: "find (\<lambda>a. core_id (heap ?S a) = - 1) (elems (head ?S)) = Some y"
    unfolding el using cy by simp
  from af(1) have "cores_ok ?S" by (simp add: sched_inv_def)
  then have rng: "core < int (length (core_arr ?S))" using af(3) core by (simp add: cores_ok_def)
  have "scheduler_quantum_expired core time s = dispatch_next core (Some core) time ?S"
    by (rule quantum_expired_eq [OF I x core rr])
  also have "\<dots> = Inr (job_id (heap ?S y),
      ?S\<lparr>heap := (heap ?S)(y := admit time core (heap ?S y)),
         core_arr := (core_arr ?S)[nat core := 1]\<rparr>)"
    unfolding dispatch_next_eq fw option.case using core rng by simp
  finally have res: "scheduler_quantum_expired core time s =
      Inr (job_id (heap s y),
        ?S\<lparr>heap := (heap ?S)(y := admit time core (heap ?S y)),
           core_arr := (core_arr ?S)[nat core := 1]\<rparr>)"
    by (simp add: after_expiry_fields)
  have "0 \<le> job_id (heap s y)" using R yn by (rule ids_nonneg)
  then have "job_id (heap s y) \<noteq> - 1" by simp
  with res show ?thesis by simp
qed

theorem quantum_expired_returns_ready_job_witness:
  "let evs = [NewJob 0 0 10 0, NewJob 1 1 5 0, QuantumExpired 0 2];
       s = projr (exec (scheduler_start_up 1 RR) evs)
   in reached 1 RR 0 evs s \<and> pre (now 0 evs) s (QuantumExpired 0 4) \<and>
      length (elems (head s)) = 2 \<and> 0 \<in> set (elems (head s)) \<and> core_id (heap s 0) = - 1 \<and>
      (\<exists>s'. scheduler_quantum_expired 0 4 s = Inr (job_id (heap s 0), s') \<and>
           job_id (heap s 0) \<noteq> - 1 \<and> core_id (heap s' 0) = 0)"
proof -
  let ?evs = "[NewJob 0 0 10 0, NewJob 1 1 5 0, QuantumExpired 0 2]"
  let ?s = "projr (exec (scheduler_start_up 1 RR) ?evs)"
  have a: "admissible 0 (scheduler_start_up 1 RR) ?evs" by code_simp
  have r: "reached 1 RR 0 ?evs ?s" by (rule reachedI [OF _ a]) simp
  have p: "pre (now 0 ?evs) ?s (QuantumExpired 0 4)" by code_simp
  have l: "length (elems (head ?s)) = 2" by code_simp
  have m: "0 \<in> set (elems (head ?s))" by code_simp
  have c: "core_id (heap ?s 0) = - 1" by code_simp
  show ?thesis unfolding Let_def
    using r p l m c quantum_expired_returns_ready_job [OF r p l m c] by (intro conjI)
qed

section \<open>The statistics of a preempted job\<close>

text \<open>
  C7. In a state reached by a run made under the conditions of the handlers, when the
  arrival of a job takes a job \<open>v\<close> off its core, the policy is PSJF or PPRI, the core
  returned is the one \<open>v\<close> was on, and the remaining time of \<open>v\<close> is recomputed as its
  duration minus the time it has run. If that is its whole duration, the response time,
  the waiting time and the start of waiting of \<open>v\<close> are all reset to -1; if not, the response
  time and the waiting time are kept and the start of waiting is the time of the arrival.
\<close>

theorem preempted_job_statistics:
  assumes "reached cores scheme t0 evs s"
    and "pre (now t0 evs) s (NewJob jn time rt pr)"
    and "scheduler_new_job jn time rt pr s = Inr (r, s')"
    and "v < nalloc s" and "core_id (heap s v) \<noteq> - 1" and "core_id (heap s' v) = - 1"
  shows "(sch s = PSJF \<or> sch s = PPRI) \<and> r = core_id (heap s v) \<and>
     duration (heap s' v) = duration (heap s v) \<and>
     remaining_time (heap s' v) =
       duration (heap s v) - (time - wait_time (heap s v) - arr_time (heap s v)) \<and>
     (if remaining_time (heap s' v) = duration (heap s' v)
      then response_time (heap s' v) = - 1 \<and> wait_time (heap s' v) = - 1 \<and>
           start_wait (heap s' v) = - 1
      else response_time (heap s' v) = response_time (heap s v) \<and>
           wait_time (heap s' v) = wait_time (heap s v) \<and>
           start_wait (heap s' v) = time)"
proof -
  note I = reached_inv [OF assms(1)]
  from new_job_effect [OF I assms(2)] obtain r0 s0 V where
    res: "scheduler_new_job jn time rt pr s = Inr (r0, s0)"
    and old: "\<forall>a. a \<noteq> nalloc s \<longrightarrow> heap s0 a =
        (if V = Some a then preempt time (heap s a)
         else if a \<in> set (elems (head s)) \<and> core_id (heap s a) \<noteq> - 1
              then recompute time (heap s a) else heap s a)"
    and vic: "case V of None \<Rightarrow> True
      | Some v \<Rightarrow> v \<in> set (elems (head s)) \<and> core_id (heap s v) \<noteq> - 1 \<and>
          (sch s = PSJF \<or> sch s = PPRI) \<and> r0 = core_id (heap s v) \<and> find_idle s = None"
    by blast
  from res assms(3) have eq: "r0 = r" "s0 = s'" by simp_all
  have vn: "v \<noteq> nalloc s" using assms(4) by simp
  have hv: "heap s' v =
        (if V = Some v then preempt time (heap s v)
         else if v \<in> set (elems (head s)) \<and> core_id (heap s v) \<noteq> - 1
              then recompute time (heap s v) else heap s v)"
    using old vn unfolding eq by blast
  have V: "V = Some v"
  proof (rule ccontr)
    assume "V \<noteq> Some v"
    with hv have "core_id (heap s' v) = core_id (heap s v)" by simp
    with assms(5,6) show False by simp
  qed
  with hv have pv: "heap s' v = preempt time (heap s v)" by simp
  from vic V eq have "sch s = PSJF \<or> sch s = PPRI" "r = core_id (heap s v)" by simp_all
  then show ?thesis unfolding pv by simp
qed

theorem preempted_job_statistics_witness:
  "(let evs = [NewJob 0 0 5 0, NewJob 1 1 10 0, JobFinished 0 0 5];
        s = projr (exec (scheduler_start_up 1 PSJF) evs);
        r = fst (projr (scheduler_new_job 2 5 1 0 s));
        s' = snd (projr (scheduler_new_job 2 5 1 0 s))
    in reached 1 PSJF 0 evs s \<and> pre (now 0 evs) s (NewJob 2 5 1 0) \<and>
       scheduler_new_job 2 5 1 0 s = Inr (r, s') \<and>
       1 < nalloc s \<and> core_id (heap s 1) \<noteq> - 1 \<and> core_id (heap s' 1) = - 1 \<and>
       response_time (heap s 1) = 4 \<and> remaining_time (heap s' 1) = duration (heap s' 1) \<and>
       response_time (heap s' 1) = - 1 \<and> wait_time (heap s' 1) = - 1 \<and>
       start_wait (heap s' 1) = - 1) \<and>
   (let evs = [NewJob 0 0 10 0];
        s = projr (exec (scheduler_start_up 1 PSJF) evs);
        r = fst (projr (scheduler_new_job 1 2 2 0 s));
        s' = snd (projr (scheduler_new_job 1 2 2 0 s))
    in reached 1 PSJF 0 evs s \<and> pre (now 0 evs) s (NewJob 1 2 2 0) \<and>
       scheduler_new_job 1 2 2 0 s = Inr (r, s') \<and>
       0 < nalloc s \<and> core_id (heap s 0) \<noteq> - 1 \<and> core_id (heap s' 0) = - 1 \<and>
       remaining_time (heap s' 0) = 8 \<and> duration (heap s' 0) = 10 \<and>
       response_time (heap s' 0) = response_time (heap s 0) \<and>
       wait_time (heap s' 0) = wait_time (heap s 0) \<and>
       start_wait (heap s' 0) = 2)"
proof -
  let ?evs = "[NewJob 0 0 5 0, NewJob 1 1 10 0, JobFinished 0 0 5]"
  let ?s = "projr (exec (scheduler_start_up 1 PSJF) ?evs)"
  let ?s' = "snd (projr (scheduler_new_job 2 5 1 0 ?s))"
  have a: "admissible 0 (scheduler_start_up 1 PSJF) ?evs" by code_simp
  have r: "reached 1 PSJF 0 ?evs ?s" by (rule reachedI [OF _ a]) simp
  have p: "pre (now 0 ?evs) ?s (NewJob 2 5 1 0)" by code_simp
  have e: "scheduler_new_job 2 5 1 0 ?s =
      Inr (fst (projr (scheduler_new_job 2 5 1 0 ?s)), snd (projr (scheduler_new_job 2 5 1 0 ?s)))"
    using step_total [OF r p] by simp
  have v: "1 < nalloc ?s" by code_simp
  have c: "core_id (heap ?s 1) \<noteq> - 1" by code_simp
  have c': "core_id (heap ?s' 1) = - 1" by code_simp
  have x: "response_time (heap ?s 1) = 4" by code_simp
  have y: "remaining_time (heap ?s' 1) = duration (heap ?s' 1)" by code_simp
  from preempted_job_statistics [OF r p e v c c'] y
  have z: "response_time (heap ?s' 1) = - 1" "wait_time (heap ?s' 1) = - 1"
    "start_wait (heap ?s' 1) = - 1"
    by (simp_all only: if_True)
  let ?evs2 = "[NewJob 0 0 10 0]"
  let ?s2 = "projr (exec (scheduler_start_up 1 PSJF) ?evs2)"
  let ?s2' = "snd (projr (scheduler_new_job 1 2 2 0 ?s2))"
  have a2: "admissible 0 (scheduler_start_up 1 PSJF) ?evs2" by code_simp
  have r2: "reached 1 PSJF 0 ?evs2 ?s2" by (rule reachedI [OF _ a2]) simp
  have p2: "pre (now 0 ?evs2) ?s2 (NewJob 1 2 2 0)" by code_simp
  have e2: "scheduler_new_job 1 2 2 0 ?s2 =
      Inr (fst (projr (scheduler_new_job 1 2 2 0 ?s2)), snd (projr (scheduler_new_job 1 2 2 0 ?s2)))"
    using step_total [OF r2 p2] by simp
  have v2: "0 < nalloc ?s2" by code_simp
  have c2: "core_id (heap ?s2 0) \<noteq> - 1" by code_simp
  have c2': "core_id (heap ?s2' 0) = - 1" by code_simp
  have x2: "remaining_time (heap ?s2' 0) = 8" "duration (heap ?s2' 0) = 10" by code_simp+
  then have y2: "remaining_time (heap ?s2' 0) \<noteq> duration (heap ?s2' 0)" by simp
  from preempted_job_statistics [OF r2 p2 e2 v2 c2 c2'] y2
  have z2: "response_time (heap ?s2' 0) = response_time (heap ?s2 0)"
    "wait_time (heap ?s2' 0) = wait_time (heap ?s2 0)"
    "start_wait (heap ?s2' 0) = 2"
    by (simp_all only: if_False)
  show ?thesis unfolding Let_def
    using r p e v c c' x y z r2 p2 e2 v2 c2 c2' x2 z2 by (intro conjI)
qed

section \<open>The turnaround time\<close>




section \<open>No preemption under FCFS, SJF and PRI\<close>

text \<open>
  C6. Under FCFS, SJF or PRI, in a state reached by a run made under the conditions of the
  handlers, a call of a handler leaves every job that is on a core on that core, with the
  entry of the core still 1, unless the call is \<open>scheduler_job_finished\<close> for that job on
  that core. In particular no arrival changes the core of a running job or frees it.
\<close>

theorem running_job_keeps_its_core:
  assumes "reached cores scheme t0 evs s"
    and "scheme = FCFS \<or> scheme = SJF \<or> scheme = PRI"
    and "pre (now t0 evs) s e"
    and "a < nalloc s" and "core_id (heap s a) \<noteq> - 1"
  shows "\<exists>r s'. step s e = Inr (r, s') \<and>
     ((\<exists>time. e = JobFinished (core_id (heap s a)) (job_id (heap s a)) time) \<or>
      core_id (heap s' a) = core_id (heap s a) \<and>
      core_arr s' ! nat (core_id (heap s a)) = 1)"
proof -
  note I = reached_inv [OF assms(1)]
  from I have C: "cores_ok s" and sc: "sch s = scheme" by (auto simp: sched_inv_def)
  note rq = running_job_in_queue [OF C assms(4,5)]
  show ?thesis
  proof (cases e)
    case (NewJob jn time rt pr)
    from new_job_effect [OF I assms(3) [unfolded NewJob]] obtain r s' V where
      res: "scheduler_new_job jn time rt pr s = Inr (r, s')"
      and old: "\<forall>a. a \<noteq> nalloc s \<longrightarrow> heap s' a =
          (if V = Some a then preempt time (heap s a)
           else if a \<in> set (elems (head s)) \<and> core_id (heap s a) \<noteq> - 1
                then recompute time (heap s a) else heap s a)"
      and vic: "case V of None \<Rightarrow> True
        | Some v \<Rightarrow> v \<in> set (elems (head s)) \<and> core_id (heap s v) \<noteq> - 1 \<and>
            (sch s = PSJF \<or> sch s = PPRI) \<and> r = core_id (heap s v) \<and> find_idle s = None"
      and ca: "core_arr s' = (if r = - 1 then core_arr s else (core_arr s)[nat r := 1])"
      by blast
    have V: "V = None"
    proof (cases V)
      case None then show ?thesis .
    next
      case (Some v)
      with vic have "sch s = PSJF \<or> sch s = PPRI" by simp
      with sc assms(2) show ?thesis by auto
    qed
    have "a \<noteq> nalloc s" using assms(4) by simp
    with old V have "heap s' a = (if a \<in> set (elems (head s)) \<and> core_id (heap s a) \<noteq> - 1
                then recompute time (heap s a) else heap s a)" by simp
    then have c1: "core_id (heap s' a) = core_id (heap s a)" by simp
    have "(core_arr s)[nat r := 1] ! nat (core_id (heap s a)) = 1"
    proof (cases "nat r = nat (core_id (heap s a))")
      case True
      show ?thesis unfolding True using rq(3) by (rule nth_list_update_eq)
    next
      case False
      from nth_list_update_neq [OF False, of "core_arr s" 1] rq(4) show ?thesis by simp
    qed
    then have c2: "core_arr s' ! nat (core_id (heap s a)) = 1"
      unfolding ca using rq(4) by (cases "r = - 1") simp_all
    from res c1 c2 show ?thesis unfolding NewJob by simp
  next
    case (JobFinished core jn time)
    from assms(3) [unfolded JobFinished] obtain b where b: "b \<in> set (elems (head s))"
      "job_id (heap s b) = jn" "core_id (heap s b) = core" and core: "0 \<le> core" by auto
    from job_finished_effect [OF I assms(3) [unfolded JobFinished] b(1,2)] obtain r s' W where
      res: "scheduler_job_finished core jn time s = Inr (r, s')"
      and h: "\<forall>x. heap s' x = (if W = Some x then admit time core (heap (after_finish core b time s) x)
                         else heap (after_finish core b time s) x)"
      and w: "case W of None \<Rightarrow> True
        | Some w \<Rightarrow> w \<in> set (elems (head s)) \<and> w \<noteq> b \<and> core_id (heap s w) = - 1"
      and ca: "core_arr s' = (case W of None \<Rightarrow> (core_arr s)[nat core := 0]
                      | Some w \<Rightarrow> (core_arr s)[nat core := 1])"
      by blast
    show ?thesis
    proof (cases "a = b")
      case True
      with b have "e = JobFinished (core_id (heap s a)) (job_id (heap s a)) time"
        unfolding JobFinished by simp
      with res show ?thesis unfolding JobFinished by auto
    next
      case False
      have "W \<noteq> Some a" using w assms(5) by (cases W) auto
      with h have "heap s' a = heap (after_finish core b time s) a" by simp
      then have c1: "core_id (heap s' a) = core_id (heap s a)"
        using False by (simp add: after_finish_fields)
      from C have A: "assignment_ok (core_arr s) (set (elems (head s))) (\<lambda>a. core_id (heap s a))"
        by (simp add: cores_ok_def)
      have "core_id (heap s a) \<noteq> core_id (heap s b)"
        using A rq(1) b(1) False assms(5) unfolding assignment_ok_def by blast
      then have "nat (core_id (heap s a)) \<noteq> nat core" using rq(2) core b(3) by simp
      then have ne: "nat core \<noteq> nat (core_id (heap s a))" by simp
      have c2: "core_arr s' ! nat (core_id (heap s a)) = 1"
        unfolding ca
        using rq(4) nth_list_update_neq [OF ne, of "core_arr s" 0]
          nth_list_update_neq [OF ne, of "core_arr s" 1]
        by (cases W) simp_all
      from res c1 c2 show ?thesis unfolding JobFinished by simp
    qed
  next
    case (QuantumExpired core time)
    with assms(3) have "sch s = RR" by simp
    with sc assms(2) show ?thesis by auto
  qed
qed

theorem running_job_keeps_its_core_witness:
  "let evs = [NewJob 0 0 9 2, NewJob 1 1 3 1];
       s = projr (exec (scheduler_start_up 1 PRI) evs)
   in reached 1 PRI 0 evs s \<and> (PRI = FCFS \<or> PRI = SJF \<or> PRI = PRI) \<and>
      pre (now 0 evs) s (NewJob 2 2 1 0) \<and> 0 < nalloc s \<and> core_id (heap s 0) \<noteq> - 1 \<and>
      (\<exists>r s'. step s (NewJob 2 2 1 0) = Inr (r, s') \<and>
        ((\<exists>time. NewJob 2 2 1 0 = JobFinished (core_id (heap s 0)) (job_id (heap s 0)) time) \<or>
         core_id (heap s' 0) = core_id (heap s 0) \<and>
         core_arr s' ! nat (core_id (heap s 0)) = 1))"
proof -
  let ?evs = "[NewJob 0 0 9 2, NewJob 1 1 3 1]"
  let ?s = "projr (exec (scheduler_start_up 1 PRI) ?evs)"
  have a: "admissible 0 (scheduler_start_up 1 PRI) ?evs" by code_simp
  have r: "reached 1 PRI 0 ?evs ?s" by (rule reachedI [OF _ a]) simp
  have k: "PRI = FCFS \<or> PRI = SJF \<or> PRI = PRI" by simp
  have p: "pre (now 0 ?evs) ?s (NewJob 2 2 1 0)" by code_simp
  have v: "0 < nalloc ?s" by code_simp
  have c: "core_id (heap ?s 0) \<noteq> - 1" by code_simp
  show ?thesis unfolding Let_def
    using r k p v c running_job_keeps_its_core [OF r k p v c] by (intro conjI)
qed

section \<open>The response time\<close>

text \<open>
  C2 says that the response time of a job is assigned a value other than -1 exactly once,
  the time of the first dispatch of the job minus its arrival time. Under PSJF on one core,
  job 0 arrives at time 0 with duration 5 and job 1 at time 1 with duration 10; job 0
  finishes at time 5 and job 1 is dispatched, with response time 4; job 2 arrives at time 5
  with duration 1 and preempts job 1, which has not run: its response time is reset to -1;
  job 2 finishes at time 6 and job 1 is dispatched again, with response time 5.
\<close>

theorem response_time_is_assigned_twice:
  "admissible 0 (scheduler_start_up 1 PSJF)
     [NewJob 0 0 5 0, NewJob 1 1 10 0, JobFinished 0 0 5, NewJob 2 5 1 0, JobFinished 0 2 6] \<and>
   map_option arr_time (job_after 1 PSJF [NewJob 0 0 5 0, NewJob 1 1 10 0] 1) = Some 1 \<and>
   map_option response_time (job_after 1 PSJF [NewJob 0 0 5 0, NewJob 1 1 10 0] 1) = Some (- 1) \<and>
   map_option response_time
     (job_after 1 PSJF [NewJob 0 0 5 0, NewJob 1 1 10 0, JobFinished 0 0 5] 1) = Some 4 \<and>
   map_option response_time
     (job_after 1 PSJF [NewJob 0 0 5 0, NewJob 1 1 10 0, JobFinished 0 0 5, NewJob 2 5 1 0] 1)
     = Some (- 1) \<and>
   map_option response_time
     (job_after 1 PSJF
        [NewJob 0 0 5 0, NewJob 1 1 10 0, JobFinished 0 0 5, NewJob 2 5 1 0, JobFinished 0 2 6] 1)
     = Some 5"
  by code_simp

text \<open>
  C2, as amended. In a state reached by a run made under the conditions of the handlers,
  every call of a handler made under its conditions returns, and leaves the response time
  of every job as follows. If the call is an arrival that takes the job off its core
  before the job has run (its remaining time is its duration), which happens under PSJF
  and PPRI only, the response time is reset to -1. Otherwise, if the response time is -1
  and the call puts the job on a core, the response time is set to the time of the call
  minus the arrival time of the job. Otherwise it is unchanged. After the call the
  response time is -1 or not negative, and it is not -1 for a job that is on a core. Under
  FCFS, SJF, PRI and RR, over the whole run with that call, the response time of a job
  is assigned a value other than -1 exactly once if the job has been put on a core, and
  never if it has not; the value is the time of the first call that put the job on a core
  minus its arrival time, and is not negative.
\<close>

theorem response_time_of_every_job:
  assumes "reached cores scheme t0 evs s" and "pre (now t0 evs) s e"
  shows "\<exists>r s'. step s e = Inr (r, s') \<and>
     (\<forall>a. resp_of a s' =
            (if is_arrival e \<and> on_core a s \<and> \<not> on_core a s' \<and>
                remaining_time (heap s' a) = duration (heap s' a) then - 1
             else if resp_of a s = - 1 \<and> on_core a s'
                  then event_time e - arr_time (heap s' a)
             else resp_of a s) \<and>
          (is_arrival e \<and> on_core a s \<and> \<not> on_core a s' \<longrightarrow> scheme = PSJF \<or> scheme = PPRI) \<and>
          (resp_of a s' = - 1 \<or> 0 \<le> resp_of a s') \<and>
          (on_core a s' \<longrightarrow> resp_of a s' \<noteq> - 1)) \<and>
     (scheme \<noteq> PSJF \<and> scheme \<noteq> PPRI \<longrightarrow>
        (\<forall>a. assignments a (scheduler_start_up cores scheme) (evs @ [e]) =
               (case first_dispatch a (scheduler_start_up cores scheme) (evs @ [e]) of
                  None \<Rightarrow> 0 | Some d \<Rightarrow> 1) \<and>
             resp_of a s' =
               (case first_dispatch a (scheduler_start_up cores scheme) (evs @ [e]) of
                  None \<Rightarrow> - 1 | Some d \<Rightarrow> d - arr_time (heap s' a)) \<and>
             (case first_dispatch a (scheduler_start_up cores scheme) (evs @ [e]) of
                None \<Rightarrow> True | Some d \<Rightarrow> 0 \<le> d - arr_time (heap s' a))))"
proof -
  note I = reached_inv [OF assms(1)]
  from step_inv [OF I assms(2)] obtain r s' where
    res: "step s e = Inr (r, s')" and I': "sched_inv cores scheme (event_time e) s'" by blast
  from I' have T': "times_ok (event_time e) s'" by (simp add: sched_inv_def)
  have sign: "resp_of a s' = - 1 \<or> 0 \<le> resp_of a s'" for a
    using T' unfolding times_ok_def resp_of_def by auto
  have oc: "on_core a s' \<longrightarrow> resp_of a s' \<noteq> - 1" for a
    using T' unfolding times_ok_def on_core_def resp_of_def by auto
  note sr = step_response [OF I assms(2) res]
  have A: "resp_of a s' =
            (if is_arrival e \<and> on_core a s \<and> \<not> on_core a s' \<and>
                remaining_time (heap s' a) = duration (heap s' a) then - 1
             else if resp_of a s = - 1 \<and> on_core a s'
                  then event_time e - arr_time (heap s' a)
             else resp_of a s) \<and>
          (is_arrival e \<and> on_core a s \<and> \<not> on_core a s' \<longrightarrow> scheme = PSJF \<or> scheme = PPRI) \<and>
          (resp_of a s' = - 1 \<or> 0 \<le> resp_of a s') \<and>
          (on_core a s' \<longrightarrow> resp_of a s' \<noteq> - 1)" for a
    using sr(1) [of a] sr(2) [of a] sign [of a] oc [of a] by blast
  let ?s0 = "scheduler_start_up cores scheme"
  let ?run = "evs @ [e]"
  have B: "assignments a ?s0 ?run = (case first_dispatch a ?s0 ?run of None \<Rightarrow> 0 | Some d \<Rightarrow> 1) \<and>
       resp_of a s' =
         (case first_dispatch a ?s0 ?run of None \<Rightarrow> - 1 | Some d \<Rightarrow> d - arr_time (heap s' a)) \<and>
       (case first_dispatch a ?s0 ?run of None \<Rightarrow> True | Some d \<Rightarrow> 0 \<le> d - arr_time (heap s' a))"
    if NP: "scheme \<noteq> PSJF" "scheme \<noteq> PPRI" for a
  proof -
    from reached_step [OF assms res] have c: "0 < cores" and ad: "admissible t0 ?s0 ?run"
      and ex: "exec ?s0 ?run = Inr s'" by (simp_all add: reached_def)
    have z: "resp_of a ?s0 = - 1" by (simp add: resp_of_def scheduler_start_up_def)
    from run_response [OF NP sched_inv_start [OF c] ad ex, of a] z
    have k: "assignments a ?s0 ?run = (case first_dispatch a ?s0 ?run of None \<Rightarrow> 0 | Some d \<Rightarrow> 1)"
      "resp_of a s' =
         (case first_dispatch a ?s0 ?run of None \<Rightarrow> - 1 | Some d \<Rightarrow> d - arr_time (heap s' a))"
      "case first_dispatch a ?s0 ?run of None \<Rightarrow> True | Some d \<Rightarrow> resp_of a s' \<noteq> - 1"
      by blast+
    have "case first_dispatch a ?s0 ?run of None \<Rightarrow> True | Some d \<Rightarrow> 0 \<le> d - arr_time (heap s' a)"
    proof (cases "first_dispatch a ?s0 ?run")
      case None
      then show ?thesis by simp
    next
      case (Some d)
      with k(2,3) have "resp_of a s' = d - arr_time (heap s' a)" "resp_of a s' \<noteq> - 1" by simp_all
      with sign [of a] Some show ?thesis by simp
    qed
    with k(1,2) show ?thesis by blast
  qed
  from res A B show ?thesis by blast
qed

theorem response_time_of_every_job_witness:
  "let evs = [NewJob 0 0 5 0, NewJob 1 1 10 0, JobFinished 0 0 5];
       s = projr (exec (scheduler_start_up 1 PSJF) evs);
       e = NewJob 2 5 1 0;
       evs2 = [NewJob 0 0 5 0, NewJob 1 1 3 0];
       s2 = projr (exec (scheduler_start_up 1 FCFS) evs2);
       e2 = JobFinished 0 0 5
   in (reached 1 PSJF 0 evs s \<and> pre (now 0 evs) s e \<and>
       is_arrival e \<and> on_core 1 s \<and> on_core 1 (snd (projr (step s e))) = False \<and>
       resp_of 1 s = 4 \<and> resp_of 1 (snd (projr (step s e))) = - 1 \<and>
       resp_of 2 s = - 1 \<and> on_core 2 (snd (projr (step s e))) \<and>
       resp_of 2 (snd (projr (step s e))) = 0 \<and>
       (\<exists>r s'. step s e = Inr (r, s') \<and>
         (\<forall>a. resp_of a s' =
                (if is_arrival e \<and> on_core a s \<and> \<not> on_core a s' \<and>
                    remaining_time (heap s' a) = duration (heap s' a) then - 1
                 else if resp_of a s = - 1 \<and> on_core a s'
                      then event_time e - arr_time (heap s' a)
                 else resp_of a s) \<and>
              (is_arrival e \<and> on_core a s \<and> \<not> on_core a s' \<longrightarrow> PSJF = PSJF \<or> PSJF = PPRI) \<and>
              (resp_of a s' = - 1 \<or> 0 \<le> resp_of a s') \<and>
              (on_core a s' \<longrightarrow> resp_of a s' \<noteq> - 1)) \<and>
         (PSJF \<noteq> PSJF \<and> PSJF \<noteq> PPRI \<longrightarrow>
            (\<forall>a. assignments a (scheduler_start_up 1 PSJF) (evs @ [e]) =
                   (case first_dispatch a (scheduler_start_up 1 PSJF) (evs @ [e]) of
                      None \<Rightarrow> 0 | Some d \<Rightarrow> 1) \<and>
                 resp_of a s' =
                   (case first_dispatch a (scheduler_start_up 1 PSJF) (evs @ [e]) of
                      None \<Rightarrow> - 1 | Some d \<Rightarrow> d - arr_time (heap s' a)) \<and>
                 (case first_dispatch a (scheduler_start_up 1 PSJF) (evs @ [e]) of
                    None \<Rightarrow> True | Some d \<Rightarrow> 0 \<le> d - arr_time (heap s' a)))))) \<and>
      (reached 1 FCFS 0 evs2 s2 \<and> pre (now 0 evs2) s2 e2 \<and>
       FCFS \<noteq> PSJF \<and> FCFS \<noteq> PPRI \<and>
       first_dispatch 1 (scheduler_start_up 1 FCFS) (evs2 @ [e2]) = Some 5 \<and>
       assignments 1 (scheduler_start_up 1 FCFS) (evs2 @ [e2]) = 1 \<and>
       arr_time (heap (snd (projr (step s2 e2))) 1) = 1 \<and>
       resp_of 1 s2 = - 1 \<and> resp_of 1 (snd (projr (step s2 e2))) = 4 \<and>
       (\<exists>r s'. step s2 e2 = Inr (r, s') \<and>
         (\<forall>a. resp_of a s' =
                (if is_arrival e2 \<and> on_core a s2 \<and> \<not> on_core a s' \<and>
                    remaining_time (heap s' a) = duration (heap s' a) then - 1
                 else if resp_of a s2 = - 1 \<and> on_core a s'
                      then event_time e2 - arr_time (heap s' a)
                 else resp_of a s2) \<and>
              (is_arrival e2 \<and> on_core a s2 \<and> \<not> on_core a s' \<longrightarrow> FCFS = PSJF \<or> FCFS = PPRI) \<and>
              (resp_of a s' = - 1 \<or> 0 \<le> resp_of a s') \<and>
              (on_core a s' \<longrightarrow> resp_of a s' \<noteq> - 1)) \<and>
         (FCFS \<noteq> PSJF \<and> FCFS \<noteq> PPRI \<longrightarrow>
            (\<forall>a. assignments a (scheduler_start_up 1 FCFS) (evs2 @ [e2]) =
                   (case first_dispatch a (scheduler_start_up 1 FCFS) (evs2 @ [e2]) of
                      None \<Rightarrow> 0 | Some d \<Rightarrow> 1) \<and>
                 resp_of a s' =
                   (case first_dispatch a (scheduler_start_up 1 FCFS) (evs2 @ [e2]) of
                      None \<Rightarrow> - 1 | Some d \<Rightarrow> d - arr_time (heap s' a)) \<and>
                 (case first_dispatch a (scheduler_start_up 1 FCFS) (evs2 @ [e2]) of
                    None \<Rightarrow> True | Some d \<Rightarrow> 0 \<le> d - arr_time (heap s' a))))))"
proof -
  let ?evs = "[NewJob 0 0 5 0, NewJob 1 1 10 0, JobFinished 0 0 5]"
  let ?s = "projr (exec (scheduler_start_up 1 PSJF) ?evs)"
  let ?e = "NewJob 2 5 1 0"
  let ?evs2 = "[NewJob 0 0 5 0, NewJob 1 1 3 0]"
  let ?s2 = "projr (exec (scheduler_start_up 1 FCFS) ?evs2)"
  let ?e2 = "JobFinished 0 0 5"
  have a: "admissible 0 (scheduler_start_up 1 PSJF) ?evs" by code_simp
  have r: "reached 1 PSJF 0 ?evs ?s" by (rule reachedI [OF _ a]) simp
  have p: "pre (now 0 ?evs) ?s ?e" by code_simp
  have x: "is_arrival ?e" "on_core 1 ?s" "on_core 1 (snd (projr (step ?s ?e))) = False"
    "resp_of 1 ?s = 4" "resp_of 1 (snd (projr (step ?s ?e))) = - 1"
    "resp_of 2 ?s = - 1" "on_core 2 (snd (projr (step ?s ?e)))"
    "resp_of 2 (snd (projr (step ?s ?e))) = 0"
    by code_simp+
  have a2: "admissible 0 (scheduler_start_up 1 FCFS) ?evs2" by code_simp
  have r2: "reached 1 FCFS 0 ?evs2 ?s2" by (rule reachedI [OF _ a2]) simp
  have p2: "pre (now 0 ?evs2) ?s2 ?e2" by code_simp
  have y: "FCFS \<noteq> PSJF" "FCFS \<noteq> PPRI"
    "first_dispatch 1 (scheduler_start_up 1 FCFS) (?evs2 @ [?e2]) = Some 5"
    "assignments 1 (scheduler_start_up 1 FCFS) (?evs2 @ [?e2]) = 1"
    "arr_time (heap (snd (projr (step ?s2 ?e2))) 1) = 1"
    "resp_of 1 ?s2 = - 1" "resp_of 1 (snd (projr (step ?s2 ?e2))) = 4"
    by code_simp+
  show ?thesis unfolding Let_def
    using r p x response_time_of_every_job [OF r p]
      r2 p2 y response_time_of_every_job [OF r2 p2] by (intro conjI)
qed

end
